theory Spec2Isabelle
  imports Main "HOL-Library.AList" "HOL-Library.Sublist"
begin

section \<open>Python text and paths\<close>

text \<open>
  A Python \<^verbatim>\<open>str\<close> is a sequence of code points. The embedding writes it as a
  \<^typ>\<open>string\<close>, one \<^typ>\<open>char\<close> for each code point below 256; \<^verbatim>\<open>bytes\<close> are
  a \<^typ>\<open>string\<close> too, one \<^typ>\<open>char\<close> for each byte. The functions below are the
  \<^verbatim>\<open>str\<close> methods and \<^verbatim>\<open>os.path\<close> functions (POSIX flavour) that the
  converter calls.
\<close>

abbreviation DQ :: char where "DQ \<equiv> CHR 0x22"
abbreviation SQ :: char where "SQ \<equiv> CHR 0x27"
abbreviation BSL :: char where "BSL \<equiv> CHR 0x5C"
abbreviation LF :: char where "LF \<equiv> CHR 0x0A"
abbreviation CR :: char where "CR \<equiv> CHR 0x0D"

text \<open>\<^verbatim>\<open>s.startswith(p)\<close>\<close>

fun startswith :: "string \<Rightarrow> string \<Rightarrow> bool" where
  "startswith s [] = True"
| "startswith [] (p # ps) = False"
| "startswith (c # cs) (p # ps) = (c = p \<and> startswith cs ps)"

text \<open>\<^verbatim>\<open>sub in s\<close>\<close>

fun contains :: "string \<Rightarrow> string \<Rightarrow> bool" where
  "contains [] sub = (sub = [])"
| "contains (c # cs) sub = (startswith (c # cs) sub \<or> contains cs sub)"

text \<open>
  \<^verbatim>\<open>s.replace(old, new)\<close>: every occurrence of \<^verbatim>\<open>old\<close>, leftmost first and not
  overlapping; an empty \<^verbatim>\<open>old\<close> matches before every character and at the end.
\<close>

function str_replace :: "string \<Rightarrow> string \<Rightarrow> string \<Rightarrow> string" where
  "str_replace [] old new = (if old = [] then new else [])"
| "str_replace (c # cs) old new =
     (if old = [] then new @ c # str_replace cs old new
      else if startswith (c # cs) old
        then new @ str_replace (drop (length old) (c # cs)) old new
      else c # str_replace cs old new)"
  by pat_completeness auto
termination
  by (relation "measure (\<lambda>(s, old, new). length s)") (auto simp: neq_Nil_conv)

text \<open>
  \<^verbatim>\<open>s.lower()\<close>: below 256 the letters with a lower-case form are A to Z and
  the Latin-1 capitals 0xC0 to 0xDE without the multiplication sign 0xD7; lowering adds
  32, which sets bit 5.
\<close>

fun lower_char :: "char \<Rightarrow> char" where
  "lower_char (Char b0 b1 b2 b3 b4 b5 b6 b7) =
     (let n = (of_char (Char b0 b1 b2 b3 b4 b5 b6 b7) :: nat)
      in if (65 \<le> n \<and> n \<le> 90) \<or> (192 \<le> n \<and> n \<le> 222 \<and> n \<noteq> 215)
         then Char b0 b1 b2 b3 b4 True b6 b7
         else Char b0 b1 b2 b3 b4 b5 b6 b7)"

definition lower :: "string \<Rightarrow> string" where
  "lower s = map lower_char s"

text \<open>\<^verbatim>\<open>c.isspace()\<close> for a code point below 256.\<close>

definition isspace :: "char \<Rightarrow> bool" where
  "isspace c = (c \<in> set [CHR 0x09, CHR 0x0A, CHR 0x0B, CHR 0x0C, CHR 0x0D, CHR 0x1C, CHR 0x1D,
      CHR 0x1E, CHR 0x1F, CHR 0x20, CHR 0x85, CHR 0xA0])"

text \<open>
  \<^verbatim>\<open>s.strip()\<close>, \<^verbatim>\<open>s.strip(chars)\<close>, \<^verbatim>\<open>s.rstrip(chars)\<close>, and
  \<^verbatim>\<open>''.join(s.split())\<close>, which drops every whitespace character.
\<close>

definition strip :: "string \<Rightarrow> string" where
  "strip s = rev (dropWhile isspace (rev (dropWhile isspace s)))"

definition strip_chars :: "string \<Rightarrow> string \<Rightarrow> string" where
  "strip_chars s chars =
     rev (dropWhile (\<lambda>c. c \<in> set chars) (rev (dropWhile (\<lambda>c. c \<in> set chars) s)))"

definition rstrip_chars :: "string \<Rightarrow> string \<Rightarrow> string" where
  "rstrip_chars s chars = rev (dropWhile (\<lambda>c. c \<in> set chars) (rev s))"

definition remove_whitespace :: "string \<Rightarrow> string" where
  "remove_whitespace s = filter (\<lambda>c. \<not> isspace c) s"

text \<open>
  \<^verbatim>\<open>s.split(sep)\<close> for a separator that is not empty (every separator of the
  converter is a literal of one or two characters). \<open>acc\<close> holds the current field,
  reversed.
\<close>

function split_acc :: "string \<Rightarrow> string \<Rightarrow> string \<Rightarrow> string list" where
  "split_acc sep acc [] = [rev acc]"
| "split_acc sep acc (c # cs) =
     (if sep \<noteq> [] \<and> startswith (c # cs) sep
      then rev acc # split_acc sep [] (drop (length sep) (c # cs))
      else split_acc sep (c # acc) cs)"
  by pat_completeness auto
termination
  by (relation "measure (\<lambda>(sep, acc, s). length s)") (auto simp: neq_Nil_conv)

definition str_split :: "string \<Rightarrow> string \<Rightarrow> string list" where
  "str_split s sep = split_acc sep [] s"

text \<open>\<^verbatim>\<open>xs[1]\<close>, which raises IndexError on a list shorter than two.\<close>

fun second :: "'a list \<Rightarrow> 'a option" where
  "second (x # y # ys) = Some y"
| "second xs = None"

text \<open>
  \<^verbatim>\<open>s.splitlines()\<close>: the line boundaries below 256 are LF, CR, CR LF, VT, FF, FS,
  GS, RS and NEL; a final line break opens no empty last line.
\<close>

definition is_linebreak :: "char \<Rightarrow> bool" where
  "is_linebreak c = (c \<in> set [CHR 0x0A, CHR 0x0B, CHR 0x0C, CHR 0x0D, CHR 0x1C, CHR 0x1D,
      CHR 0x1E, CHR 0x85])"

fun splitlines_acc :: "string \<Rightarrow> string \<Rightarrow> string list" where
  "splitlines_acc acc [] = (if acc = [] then [] else [rev acc])"
| "splitlines_acc acc [c] =
     (if is_linebreak c then [rev acc] else [rev (c # acc)])"
| "splitlines_acc acc (c # d # cs) =
     (if c = CR \<and> d = LF then rev acc # splitlines_acc [] cs
      else if is_linebreak c then rev acc # splitlines_acc [] (d # cs)
      else splitlines_acc (c # acc) (d # cs))"

definition splitlines :: "string \<Rightarrow> string list" where
  "splitlines s = splitlines_acc [] s"

text \<open>\<^verbatim>\<open>sep.join(xs)\<close>\<close>

fun join :: "string \<Rightarrow> string list \<Rightarrow> string" where
  "join sep [] = []"
| "join sep [x] = x"
| "join sep (x # y # ys) = x @ sep @ join sep (y # ys)"

text \<open>
  \<^verbatim>\<open>s.encode('utf-8')\<close>: a code point below 128 is one byte, one from 128 to 255
  is the two bytes \<^verbatim>\<open>110000xx 10xxxxxx\<close>.
\<close>

fun utf8_char :: "char \<Rightarrow> string" where
  "utf8_char (Char b0 b1 b2 b3 b4 b5 b6 b7) =
     (if b7 then [Char b6 True False False False False True True,
                  Char b0 b1 b2 b3 b4 b5 False True]
      else [Char b0 b1 b2 b3 b4 b5 b6 b7])"

definition encode_utf8 :: "string \<Rightarrow> string" where
  "encode_utf8 s = concat (map utf8_char s)"

text \<open>\<^verbatim>\<open>str(n)\<close> for a number that is not negative.\<close>

function str_nat :: "nat \<Rightarrow> string" where
  "str_nat n =
     (if n < 10 then [''0123456789'' ! n]
      else str_nat (n div 10) @ [''0123456789'' ! (n mod 10)])"
  by pat_completeness auto
termination
  by (relation "measure (\<lambda>n. n)") auto

text \<open>\<^verbatim>\<open>os.path.join(a, b)\<close> and \<^verbatim>\<open>os.path.basename(p)\<close> of \<^verbatim>\<open>posixpath\<close>.\<close>

definition path_join :: "string \<Rightarrow> string \<Rightarrow> string" where
  "path_join a b =
     (if startswith b ''/'' then b
      else if a = [] \<or> last a = CHR ''/'' then a @ b
      else a @ ''/'' @ b)"

definition basename :: "string \<Rightarrow> string" where
  "basename p = rev (takeWhile (\<lambda>c. c \<noteq> CHR ''/'') (rev p))"

text \<open>
  \<^verbatim>\<open>os.path.splitext(p)[0]\<close>: the extension starts at the last dot of the last
  component, unless only dots stand before it in that component.
\<close>

definition splitext_root :: "string \<Rightarrow> string" where
  "splitext_root p =
     (let base = basename p;
          ext = rev (takeWhile (\<lambda>c. c \<noteq> CHR ''.'') (rev base));
          stem = take (length base - length ext - 1) base
      in if CHR ''.'' \<in> set base \<and> (\<exists>c \<in> set stem. c \<noteq> CHR ''.'')
         then take (length p - length ext - 1) p
         else p)"

section \<open>The Python library\<close>

text \<open>
  The converter calls \<^verbatim>\<open>base64\<close>, \<^verbatim>\<open>quopri\<close>, \<^verbatim>\<open>hashlib\<close>, the codecs,
  the template language of \<^verbatim>\<open>re.sub\<close> and \<^verbatim>\<open>open\<close>. They are no code of the
  converter, so the embedding takes them as a parameter \<open>L\<close>, and every theorem holds
  for each library:
  \<^item> \<open>b64decode\<close>: \<^verbatim>\<open>base64.b64decode\<close> on bytes, \<open>Inl\<close> the message of the
    error it raises;
  \<^item> \<open>quopri_decodestring\<close>: \<^verbatim>\<open>quopri.decodestring\<close>, likewise;
  \<^item> \<open>utf8_decode_ignore\<close>: \<^verbatim>\<open>bytes.decode('utf-8', errors='ignore')\<close>;
  \<^item> \<open>decode_strict\<close>: \<^verbatim>\<open>bytes.decode(encoding)\<close> as a text-mode read does it,
    \<open>None\<close> for UnicodeDecodeError;
  \<^item> \<open>md5_hexdigest\<close>: \<^verbatim>\<open>hashlib.md5(bytes).hexdigest()\<close>;
  \<^item> \<open>re_template\<close>: the expansion of a replacement template of \<^verbatim>\<open>re.sub\<close> that
    holds a backslash, as a function of the matched text; \<open>None\<close> for \<^verbatim>\<open>re.error\<close>;
  \<^item> \<open>write_failure\<close>: what \<^verbatim>\<open>with open(path, 'wb') as f: f.write(bytes)\<close> does
    with a path and bytes: \<open>None\<close> when the bytes are written, and for an error of the
    operating system its message with what the call has left at the path, \<open>None\<close>
    when it has not touched the file (the file could not be opened) and the bytes of the
    file otherwise (it was opened, which empties it, and the writing failed). Whether a
    write fails is taken to depend on the path and the bytes only.
\<close>

record pylib =
  b64decode :: "string \<Rightarrow> string + string"
  quopri_decodestring :: "string \<Rightarrow> string + string"
  utf8_decode_ignore :: "string \<Rightarrow> string"
  decode_strict :: "string \<Rightarrow> string \<Rightarrow> string option"
  md5_hexdigest :: "string \<Rightarrow> string"
  re_template :: "string \<Rightarrow> (string \<Rightarrow> string) option"
  write_failure :: "string \<Rightarrow> string \<Rightarrow> (string \<times> string option) option"

datatype error = ValueError string | ReError | OSError

text \<open>
  \<^verbatim>\<open>base64.b64decode(s)\<close> on a \<^verbatim>\<open>str\<close>: the library turns it into bytes with the
  ASCII codec and raises ValueError when it cannot.
\<close>

definition b64decode_str :: "pylib \<Rightarrow> string \<Rightarrow> string + string" where
  "b64decode_str L s =
     (if list_all (\<lambda>c. (of_char c :: nat) < 128) s then b64decode L s
      else Inl ''string argument should contain only ASCII characters'')"

text \<open>
  The patterns that the converter gives to \<^verbatim>\<open>re.sub\<close> with
  \<^verbatim>\<open>flags=re.IGNORECASE\<close> are sequences of two kinds of items: a character that
  stands for itself, letters in either case (below 256 two code points match when their
  lower-case forms are equal), and the dot, which matches every character but the
  newline. \<^verbatim>\<open>re.escape(name)\<close> turns each character of the name into an item of the
  first kind; the text that an f-string puts around it is read by the pattern compiler,
  where the dot of \<^verbatim>\<open>.dat\<close> is an item of the second kind. \<open>match_ci\<close> says that
  a text starts with a match of the pattern, \<open>startswith_ci\<close> is the same for a text
  to be found as it stands.

  \<^verbatim>\<open>re.sub(pattern, repl, s, flags=re.IGNORECASE)\<close>: matches are taken leftmost
  first and do not overlap. A template without a backslash stands for itself; any other
  goes to the library's template compiler, before the search starts.
\<close>

datatype pat = Lit char | Dot

definition re_escape :: "string \<Rightarrow> pat list" where
  "re_escape name = map Lit name"

fun match_ci :: "string \<Rightarrow> pat list \<Rightarrow> bool" where
  "match_ci s [] = True"
| "match_ci [] (p # ps) = False"
| "match_ci (c # cs) (Lit p # ps) = (lower_char c = lower_char p \<and> match_ci cs ps)"
| "match_ci (c # cs) (Dot # ps) = (c \<noteq> LF \<and> match_ci cs ps)"

fun startswith_ci :: "string \<Rightarrow> string \<Rightarrow> bool" where
  "startswith_ci s [] = True"
| "startswith_ci [] (p # ps) = False"
| "startswith_ci (c # cs) (p # ps) = (lower_char c = lower_char p \<and> startswith_ci cs ps)"

function sub_ci :: "pat list \<Rightarrow> (string \<Rightarrow> string) \<Rightarrow> string \<Rightarrow> string" where
  "sub_ci pattern ex [] = (if pattern = [] then ex [] else [])"
| "sub_ci pattern ex (c # cs) =
     (if pattern = [] then ex [] @ c # sub_ci pattern ex cs
      else if match_ci (c # cs) pattern
        then ex (take (length pattern) (c # cs))
             @ sub_ci pattern ex (drop (length pattern) (c # cs))
      else c # sub_ci pattern ex cs)"
  by pat_completeness auto
termination
  by (relation "measure (\<lambda>(pattern, ex, s). length s)") (auto simp: neq_Nil_conv)

definition compile_repl :: "pylib \<Rightarrow> string \<Rightarrow> (string \<Rightarrow> string) option" where
  "compile_repl L repl = (if BSL \<in> set repl then re_template L repl else Some (\<lambda>m. repl))"

definition re_sub :: "pylib \<Rightarrow> pat list \<Rightarrow> string \<Rightarrow> string \<Rightarrow> error + string" where
  "re_sub L pattern repl s =
     (case compile_repl L repl of
        None \<Rightarrow> Inl ReError
      | Some ex \<Rightarrow> Inr (sub_ci pattern ex s))"

section \<open>The parser\<close>

text \<open>
  The fields of \<^verbatim>\<open>MHTMLParser\<close>. A dictionary is an association list in insertion
  order, as \<^verbatim>\<open>items()\<close> walks it, and \<^verbatim>\<open>d[k] = v\<close> is \<^const>\<open>AList.update\<close>: the
  value of a key that is present changes in place, a new key goes to the end. A part of
  the dataset is the triple of content type, resource id and content. The performance
  monitor only reads the clock and the memory counters and is left out.
\<close>

type_synonym pydict = "(string \<times> string) list"

type_synonym part = "string \<times> string \<times> string"

record parser =
  mhtml_content :: "string option"
  decode_images :: bool
  dataset :: "part list"
  boundary :: "string option"
  missing_images :: pydict
  image_paths :: pydict
  image_content_types :: pydict

text \<open>\<^verbatim>\<open>MHTMLParser.__init__\<close>\<close>

definition MHTMLParser :: "string option \<Rightarrow> bool \<Rightarrow> parser" where
  "MHTMLParser content di =
     \<lparr>mhtml_content = content, decode_images = di, dataset = [], boundary = None,
      missing_images = [], image_paths = [], image_content_types = []\<rparr>"

text \<open>\<^verbatim>\<open>_decode_base64\<close> and \<^verbatim>\<open>_decode_quoted_printable\<close>: any exception is caught.\<close>

definition decode_base64 :: "pylib \<Rightarrow> string \<Rightarrow> string" where
  "decode_base64 L data0 =
     (let data = remove_whitespace data0
      in case b64decode L (encode_utf8 data) of
           Inr bytes \<Rightarrow> utf8_decode_ignore L bytes
         | Inl e \<Rightarrow> data)"

definition decode_quoted_printable :: "pylib \<Rightarrow> string \<Rightarrow> string" where
  "decode_quoted_printable L data =
     (case quopri_decodestring L (encode_utf8 data) of
        Inr bytes \<Rightarrow> utf8_decode_ignore L bytes
      | Inl e \<Rightarrow> data)"

text \<open>\<^verbatim>\<open>_get_header_value\<close>: the text after the first colon, or the empty string.\<close>

definition get_header_value :: "string \<Rightarrow> string" where
  "get_header_value header_line =
     (if CHR '':'' \<in> set header_line
      then strip (rstrip_chars (strip (tl (dropWhile (\<lambda>c. c \<noteq> CHR '':'') header_line))) '';'')
      else [])"

text \<open>
  The value after the equals sign, as \<^verbatim>\<open>_find_boundary\<close> and the
  \<^verbatim>\<open>filename=\<close> branch of \<^verbatim>\<open>_process_part\<close> both read it; \<open>None\<close> is the
  IndexError that the caller catches.
\<close>

definition value_after_equals :: "string \<Rightarrow> string option" where
  "value_after_equals line =
     (if DQ \<in> set line
        then map_option (\<lambda>v. rstrip_chars v [DQ]) (second (str_split line [CHR ''='', DQ]))
      else if SQ \<in> set line
        then map_option (\<lambda>v. rstrip_chars v [SQ]) (second (str_split line [CHR ''='', SQ]))
      else map_option strip (second (str_split line ''='')))"

text \<open>
  \<^verbatim>\<open>_process_part\<close>: the local variables of the loop over the lines of a part, one
  step of that loop, and the decoding after it.
\<close>

record part_vars =
  content_type :: string
  content_location :: string
  content_encoding :: string
  filename :: string
  content_id :: string
  charset :: string
  content_lines :: "string list"
  header_done :: bool

definition part_vars_init :: part_vars where
  "part_vars_init =
     \<lparr>content_type = [], content_location = [], content_encoding = [], filename = [],
      content_id = [], charset = ''utf-8'', content_lines = [], header_done = False\<rparr>"

definition process_line :: "string \<Rightarrow> part_vars \<Rightarrow> part_vars" where
  "process_line line0 v =
     (let line = strip line0
      in if \<not> header_done v then
           if line = [] then v\<lparr>header_done := True\<rparr>
           else
             let line_lower = lower line
             in if contains line_lower ''content-type''
                  then v\<lparr>content_type := get_header_value line\<rparr>
                else if contains line_lower ''content-location''
                  then v\<lparr>content_location := get_header_value line\<rparr>
                else if contains line_lower ''content-transfer-encoding''
                  then v\<lparr>content_encoding := get_header_value line\<rparr>
                else if contains line_lower ''filename=''
                  then (case value_after_equals line of
                          Some f \<Rightarrow> v\<lparr>filename := f\<rparr>
                        | None \<Rightarrow> v)
                else if contains line_lower ''content-id''
                  then (case second (str_split line '':'') of
                          Some i \<Rightarrow> v\<lparr>content_id := strip_chars (strip i) ''<>''\<rparr>
                        | None \<Rightarrow> v)
                else if contains line_lower ''charset''
                  then v\<lparr>charset := get_header_value line\<rparr>
                else v
         else v\<lparr>content_lines := content_lines v @ [line]\<rparr>)"

definition scan_part :: "string list \<Rightarrow> part_vars" where
  "scan_part lines = fold process_line lines part_vars_init"

definition decode_content :: "pylib \<Rightarrow> part_vars \<Rightarrow> string" where
  "decode_content L v =
     (let content = join [LF] (content_lines v)
      in if lower (content_encoding v) = ''base64'' then
           if \<not> startswith (content_type v) ''image/'' then decode_base64 L content
           else content
         else if lower (content_encoding v) = ''quoted-printable''
           then decode_quoted_printable L content
         else content)"

definition resource_id_of :: "part_vars \<Rightarrow> string" where
  "resource_id_of v =
     (if content_id v \<noteq> [] then content_id v
      else if filename v \<noteq> [] then filename v
      else content_location v)"

definition process_part :: "pylib \<Rightarrow> string list \<Rightarrow> parser \<Rightarrow> part \<times> parser" where
  "process_part L lines p =
     (let v = scan_part lines;
          content = decode_content L v;
          resource_id = resource_id_of v;
          p' = (if startswith (content_type v) ''image/''
                then p\<lparr>image_content_types :=
                         AList.update resource_id (content_type v) (image_content_types p)\<rparr>
                else p)
      in ((content_type v, resource_id, content), p'))"

text \<open>\<^verbatim>\<open>_find_boundary\<close>\<close>

fun find_boundary :: "string list \<Rightarrow> string option" where
  "find_boundary [] = None"
| "find_boundary (l # ls) =
     (let line = strip l
      in if contains (lower line) ''boundary'' then
           (case value_after_equals line of
              Some b \<Rightarrow> Some b
            | None \<Rightarrow> find_boundary ls)
         else find_boundary ls)"

text \<open>
  \<^verbatim>\<open>parse\<close>. \<open>close_part\<close> is the block that the loop runs at a boundary line and
  that runs once more after the loop: process the open part and append it when it has a
  content type or a resource id. \<open>parse_line\<close> is one step of the loop over the lines,
  on the pair of \<^verbatim>\<open>current_part\<close> and \<^verbatim>\<open>in_content\<close> and the parser.
  \<^verbatim>\<open>_process_part\<close> catches the errors of its decoders itself and raises nothing,
  so the handlers of \<^verbatim>\<open>parse\<close> that print a warning never run.
\<close>

definition close_part :: "pylib \<Rightarrow> string list \<Rightarrow> bool \<Rightarrow> parser \<Rightarrow> parser" where
  "close_part L current_part in_content p =
     (if current_part \<noteq> [] \<and> in_content then
        (case process_part L current_part p of
           ((ct, rid, c), p') \<Rightarrow>
             if ct \<noteq> [] \<or> rid \<noteq> [] then p'\<lparr>dataset := dataset p' @ [(ct, rid, c)]\<rparr> else p')
      else p)"

definition parse_line ::
  "pylib \<Rightarrow> string \<Rightarrow> string \<Rightarrow> string list \<times> bool \<times> parser \<Rightarrow> string list \<times> bool \<times> parser"
where
  "parse_line L b line st =
     (case st of (current_part, in_content, p) \<Rightarrow>
        if contains line b then ([], True, close_part L current_part in_content p)
        else if in_content then (current_part @ [line], in_content, p)
        else (current_part, in_content, p))"

definition parse :: "pylib \<Rightarrow> parser \<Rightarrow> error option \<times> parser" where
  "parse L p =
     (case mhtml_content p of
        None \<Rightarrow> (Some (ValueError ''No MHTML content set''), p)
      | Some text \<Rightarrow>
          if text = [] then (Some (ValueError ''No MHTML content set''), p)
          else
            let lines = splitlines text;
                p1 = p\<lparr>boundary := find_boundary lines\<rparr>
            in (case boundary p1 of
                  None \<Rightarrow> (Some (ValueError ''Could not find boundary in MHTML content''), p1)
                | Some b \<Rightarrow>
                    if b = [] then
                      (Some (ValueError ''Could not find boundary in MHTML content''), p1)
                    else
                      (case fold (parse_line L b) lines ([], False, p1) of
                         (current_part, in_content, p2) \<Rightarrow>
                           (None, close_part L current_part in_content p2))))"

text \<open>
  \<^verbatim>\<open>get_html\<close>. \<open>find_html\<close> is the first loop: the content of the first part whose
  content type is \<^verbatim>\<open>text/html\<close>, or the empty string that the variable starts with.
  \<open>image_map_of\<close> is the dictionary built in the embedded branch, each entry a name
  with its content type and content. \<open>embed_images\<close> is the loop over that dictionary,
  \<open>fix_html_paths\<close> the method \<^verbatim>\<open>_fix_html_paths\<close> with its six patterns for each
  entry of the image registry; in the last three the dot before \<^verbatim>\<open>dat\<close> is not
  escaped.
\<close>

fun find_html :: "part list \<Rightarrow> string" where
  "find_html [] = []"
| "find_html ((ct, name, content) # rest) =
     (if ct = ''text/html'' then content else find_html rest)"

fun image_map_of :: "part list \<Rightarrow> (string \<times> string \<times> string) list
    \<Rightarrow> (string \<times> string \<times> string) list" where
  "image_map_of [] m = m"
| "image_map_of ((ct, name, content) # rest) m =
     image_map_of rest (if startswith ct ''image/'' then AList.update name (ct, content) m else m)"

fun sub_all :: "pylib \<Rightarrow> pat list list \<Rightarrow> string \<Rightarrow> string \<Rightarrow> error + string" where
  "sub_all L [] repl html = Inr html"
| "sub_all L (pattern # patterns) repl html =
     (case re_sub L pattern repl html of
        Inl e \<Rightarrow> Inl e
      | Inr html' \<Rightarrow> sub_all L patterns repl html')"

fun embed_images :: "pylib \<Rightarrow> bool \<Rightarrow> (string \<times> string \<times> string) list \<Rightarrow> string
    \<Rightarrow> error + string" where
  "embed_images L di [] html = Inr html"
| "embed_images L di ((name, ct, content) # rest) html =
     (if di then
        (let data_uri = ''data:'' @ ct @ '';base64,'' @ content
         in case sub_all L
                   [map Lit (''src='' @ [DQ] @ ''cid:'') @ re_escape name @ [Lit DQ],
                    map Lit (''src='' @ [DQ]) @ re_escape name @ [Lit DQ]]
                   (''src='' @ [DQ] @ data_uri @ [DQ]) html of
              Inl e \<Rightarrow> Inl e
            | Inr html' \<Rightarrow> embed_images L di rest html')
      else embed_images L di rest html)"

fun fix_html_paths :: "pylib \<Rightarrow> pydict \<Rightarrow> string \<Rightarrow> error + string" where
  "fix_html_paths L [] html = Inr html"
| "fix_html_paths L ((name, fname) # rest) html =
     (case sub_all L
             [map Lit (''src='' @ [DQ] @ ''cid:'') @ re_escape name @ [Lit DQ],
              map Lit (''src='' @ [DQ]) @ re_escape name @ [Lit DQ],
              map Lit (''src='' @ [SQ]) @ re_escape name @ [Lit SQ],
              map Lit (''src='' @ [DQ] @ ''cid:'') @ re_escape name @ Dot # map Lit (''dat'' @ [DQ]),
              map Lit (''src='' @ [DQ]) @ re_escape name @ Dot # map Lit (''dat'' @ [DQ]),
              map Lit (''src='' @ [SQ]) @ re_escape name @ Dot # map Lit (''dat'' @ [SQ])]
             (''src='' @ [DQ] @ ''images/'' @ fname @ [DQ]) html of
        Inl e \<Rightarrow> Inl e
      | Inr html' \<Rightarrow> fix_html_paths L rest html')"

definition get_html :: "pylib \<Rightarrow> parser \<Rightarrow> bool \<Rightarrow> error + string" where
  "get_html L p embedded_images =
     (let html_content = find_html (dataset p)
      in if html_content = [] then Inl (ValueError ''No HTML content found in MHTML file'')
         else if embedded_images
           then embed_images L (decode_images p) (image_map_of (dataset p) []) html_content
         else fix_html_paths L (image_paths p) html_content)"

text \<open>
  \<^verbatim>\<open>_get_image_extension\<close> and \<^verbatim>\<open>_generate_image_filename\<close>. The character class
  of the first substitution holds the nine characters \<^verbatim>\<open><>:"/\|?*\<close>.
\<close>

definition get_image_extension :: "string \<Rightarrow> string" where
  "get_image_extension ct =
     (case map_of
        [(''image/jpeg'', ''.jpg''), (''image/jpg'', ''.jpg''), (''image/png'', ''.png''),
         (''image/gif'', ''.gif''), (''image/webp'', ''.webp''), (''image/bmp'', ''.bmp''),
         (''image/x-icon'', ''.ico''), (''image/vnd.microsoft.icon'', ''.ico''),
         (''image/svg+xml'', ''.svg'')] (lower ct) of
        Some ext \<Rightarrow> ext
      | None \<Rightarrow> ''.img'')"

definition sanitize :: "string \<Rightarrow> string" where
  "sanitize original_name =
     map (\<lambda>c. if c \<in> set (''<>:'' @ [DQ] @ ''/'' @ [BSL] @ ''|?*'') then CHR ''_'' else c)
       original_name"

definition generate_image_filename :: "pylib \<Rightarrow> string \<Rightarrow> string \<Rightarrow> string \<Rightarrow> string" where
  "generate_image_filename L original_name content ct =
     (let content_hash = take 8 (md5_hexdigest L (encode_utf8 content));
          ext = get_image_extension ct;
          safe_name0 = sanitize original_name;
          safe_name1 = last (str_split (last (str_split safe_name0 ''/'')) [BSL]);
          safe_name = splitext_root safe_name1
      in safe_name @ ''_'' @ content_hash @ ext)"

text \<open>
  The file system maps a path to the bytes of the file there. Paths are compared as they
  are written: the working directory stays where it is, and two different path strings
  name two files. A write puts the bytes at the path.

  \<^verbatim>\<open>extract_images\<close>: \<open>extract_image\<close> is the body of its loop for one part. The
  inner handler catches what the decoding raises and what the writing of the file
  raises, and logs either under the resource id; the outer handler would catch what
  \<^verbatim>\<open>_generate_image_filename\<close> raises, which is nothing. The directory is there
  after \<^verbatim>\<open>os.makedirs\<close>.
\<close>

type_synonym filesystem = "string \<Rightarrow> string option"

definition extract_image :: "pylib \<Rightarrow> string \<Rightarrow> part \<Rightarrow> parser \<times> filesystem
    \<Rightarrow> parser \<times> filesystem" where
  "extract_image L output_dir pt st =
     (case (pt, st) of ((ct, name, content), (p, fs)) \<Rightarrow>
        if \<not> startswith ct ''image/'' \<or> name = [] then (p, fs)
        else
          let fname = generate_image_filename L name content ct;
              image_path = path_join output_dir fname
          in case b64decode_str L (remove_whitespace content) of
               Inr img_data \<Rightarrow>
                 (case write_failure L image_path img_data of
                    None \<Rightarrow>
                      (p\<lparr>image_paths := AList.update name fname (image_paths p)\<rparr>,
                       fs(image_path \<mapsto> img_data))
                  | Some (e, left) \<Rightarrow>
                      (p\<lparr>missing_images :=
                           AList.update name (''Failed to decode/save image: '' @ e)
                             (missing_images p)\<rparr>,
                       case left of None \<Rightarrow> fs | Some bytes \<Rightarrow> fs(image_path \<mapsto> bytes)))
             | Inl e \<Rightarrow>
                 (p\<lparr>missing_images :=
                      AList.update name (''Failed to decode/save image: '' @ e) (missing_images p)\<rparr>,
                  fs))"

definition extract_images :: "pylib \<Rightarrow> string \<Rightarrow> parser \<times> filesystem \<Rightarrow> parser \<times> filesystem" where
  "extract_images L output_dir st =
     (case st of (p, fs) \<Rightarrow>
        fold (extract_image L output_dir) (dataset p) (p\<lparr>image_paths := []\<rparr>, fs))"

section \<open>The splitter: rewriting references\<close>

text \<open>
  \<open>save_html_rewrite\<close> is the loop of
  \<^verbatim>\<open>MHTMLSplitter._save_html_file\<close> that updates the image paths; the content it
  returns is what \<^verbatim>\<open>write_file\<close> receives.
\<close>

fun save_html_rewrite :: "string \<Rightarrow> pydict \<Rightarrow> string" where
  "save_html_rewrite content [] = content"
| "save_html_rewrite content ((img_name, img_path) # rest) =
     (let relative_path = path_join ''images'' (basename img_path);
          content1 = str_replace content (''cid:'' @ img_name) relative_path;
          content2 = str_replace content1 (DQ # img_name @ [DQ]) (DQ # relative_path @ [DQ])
      in save_html_rewrite content2 rest)"

section \<open>The splitter: writing files under a size limit\<close>

text \<open>
  The fields of \<^verbatim>\<open>MHTMLSplitter\<close>; \<open>missing_images_by_file\<close> is its dictionary
  \<^verbatim>\<open>missing_images\<close>, from the base name of a document to the messages about its
  images.
\<close>

record splitter =
  max_size_mb :: int
  missing_images_by_file :: "(string \<times> string list) list"

text \<open>
  \<^verbatim>\<open>FileUtils.read_file\<close>: UTF-8 first, then the four other encodings in their
  order, then the bytes decoded as UTF-8 without the ones that do not decode. A file
  that is not there raises an error of the operating system.
  \<^verbatim>\<open>FileUtils.write_file\<close> writes the text in UTF-8. The converter has no handler
  around this write: an error of the operating system there ends the run, and the model
  covers the runs in which the writes of the HTML files succeed.
\<close>

fun try_encodings :: "pylib \<Rightarrow> string list \<Rightarrow> string \<Rightarrow> string option" where
  "try_encodings L [] bytes = None"
| "try_encodings L (enc # encs) bytes =
     (case decode_strict L enc bytes of
        Some text \<Rightarrow> Some text
      | None \<Rightarrow> try_encodings L encs bytes)"

definition read_file :: "pylib \<Rightarrow> filesystem \<Rightarrow> string \<Rightarrow> error + string" where
  "read_file L fs file_path =
     (case fs file_path of
        None \<Rightarrow> Inl OSError
      | Some bytes \<Rightarrow>
          (case decode_strict L ''utf-8'' bytes of
             Some text \<Rightarrow> Inr text
           | None \<Rightarrow>
               (case try_encodings L [''gbk'', ''gb2312'', ''big5'', ''latin1''] bytes of
                  Some text \<Rightarrow> Inr text
                | None \<Rightarrow> Inr (utf8_decode_ignore L bytes))))"

definition write_file :: "filesystem \<Rightarrow> string \<Rightarrow> string \<Rightarrow> filesystem" where
  "write_file fs file_path content = fs(file_path \<mapsto> encode_utf8 content)"

text \<open>\<^verbatim>\<open>_save_html_file\<close>\<close>

definition save_html_file :: "filesystem \<Rightarrow> string \<Rightarrow> string \<Rightarrow> pydict \<Rightarrow> filesystem" where
  "save_html_file fs output_path content registry =
     write_file fs output_path (save_html_rewrite content registry)"

text \<open>
  \<^verbatim>\<open>_extract_header_template\<close>: the pattern \<^verbatim>\<open>(<html.*?<body.*?>)\<close>, with the dot
  matching every character and letters in either case. A match starts at the first
  \<^verbatim>\<open><html\<close>, runs to the first \<^verbatim>\<open><body\<close> after it and ends at the first
  \<^verbatim>\<open>>\<close> after that; when one of the three is missing, no later start matches
  either. \<open>find_ci\<close> splits a text at the first occurrence of a literal.
\<close>

fun find_ci :: "string \<Rightarrow> string \<Rightarrow> (string \<times> string) option" where
  "find_ci [] lit = (if lit = [] then Some ([], []) else None)"
| "find_ci (c # cs) lit =
     (if startswith_ci (c # cs) lit then Some ([], c # cs)
      else map_option (\<lambda>(before, rest). (c # before, rest)) (find_ci cs lit))"

definition extract_header_template :: "string \<Rightarrow> string" where
  "extract_header_template html_content =
     (case find_ci html_content ''<html'' of
        None \<Rightarrow> ''<html><body>''
      | Some (skipped, m) \<Rightarrow>
          (case find_ci (drop 5 m) ''<body'' of
             None \<Rightarrow> ''<html><body>''
           | Some (head, m2) \<Rightarrow>
               (case find_ci (drop 5 m2) ''>'' of
                  None \<Rightarrow> ''<html><body>''
                | Some (attrs, m3) \<Rightarrow> take 5 m @ head @ take 5 m2 @ attrs @ ''>'')))"

text \<open>\<^verbatim>\<open>_build_html_content\<close>: the lines are joined by the empty string.\<close>

definition build_html_content :: "string \<Rightarrow> string list \<Rightarrow> string" where
  "build_html_content header content = header @ [LF] @ concat content @ [LF] @ ''</body></html>''"

text \<open>
  \<^verbatim>\<open>_calculate_line_images_size\<close>: \<^verbatim>\<open>os.path.exists\<close> and
  \<^verbatim>\<open>os.path.getsize\<close> read the file system at the path stored in the registry.
\<close>

fun calculate_line_images_size :: "filesystem \<Rightarrow> string \<Rightarrow> pydict \<Rightarrow> nat" where
  "calculate_line_images_size fs line [] = 0"
| "calculate_line_images_size fs line ((img_name, img_path) # rest) =
     (if contains line img_name \<and> fs img_path \<noteq> None
      then (case fs img_path of Some bytes \<Rightarrow> length bytes | None \<Rightarrow> 0)
      else 0)
     + calculate_line_images_size fs line rest"

text \<open>
  \<^verbatim>\<open>_split_large_file\<close>: the variables of its loop, the block that saves the current
  file, one step of the loop over the lines, and the method.
\<close>

record split_vars =
  output_files :: "string list"
  current_size :: int
  current_content :: "string list"
  file_counter :: nat
  files :: filesystem

definition save_current :: "string \<Rightarrow> string \<Rightarrow> string \<Rightarrow> pydict \<Rightarrow> split_vars \<Rightarrow> split_vars" where
  "save_current header_template base_name output_dir registry v =
     (let output_path =
            path_join output_dir (base_name @ ''_'' @ str_nat (file_counter v) @ ''.html'')
      in v\<lparr>files := save_html_file (files v) output_path
                       (build_html_content header_template (current_content v)) registry,
           output_files := output_files v @ [output_path]\<rparr>)"

definition split_step ::
  "splitter \<Rightarrow> string \<Rightarrow> string \<Rightarrow> string \<Rightarrow> pydict \<Rightarrow> string \<Rightarrow> split_vars \<Rightarrow> split_vars"
where
  "split_step sp header_template base_name output_dir registry line v =
     (let line_size = int (length (encode_utf8 line));
          image_size = int (calculate_line_images_size (files v) line registry);
          v1 = (if current_size v + line_size + image_size > max_size_mb sp * 1024 * 1024
                then (save_current header_template base_name output_dir registry v)
                       \<lparr>current_content := [], current_size := 0,
                        file_counter := file_counter v + 1\<rparr>
                else v)
      in v1\<lparr>current_content := current_content v1 @ [line],
            current_size := current_size v1 + line_size + image_size\<rparr>)"

definition split_large_file ::
  "splitter \<Rightarrow> filesystem \<Rightarrow> string \<Rightarrow> string \<Rightarrow> string \<Rightarrow> pydict \<Rightarrow> string list \<times> filesystem"
where
  "split_large_file sp fs html_content base_name output_dir registry =
     (let header_template = extract_header_template html_content;
          v = fold (split_step sp header_template base_name output_dir registry)
                (str_split html_content [LF])
                \<lparr>output_files = [], current_size = 0, current_content = [],
                 file_counter = 1, files = fs\<rparr>;
          v' = (if current_content v \<noteq> []
                then save_current header_template base_name output_dir registry v
                else v)
      in (output_files v', files v'))"

text \<open>
  \<^verbatim>\<open>_update_missing_images\<close> and \<^verbatim>\<open>split_file\<close>. The result of
  \<^verbatim>\<open>split_file\<close> is the error raised or the list of paths returned, with the
  splitter and the file system as the call leaves them. The test of the size divides the
  number of code points by \<^verbatim>\<open>1024 * 1024\<close> as a float, which is exact, so it is the
  comparison of integers below.
\<close>

definition update_missing_images :: "pydict \<Rightarrow> string \<Rightarrow> splitter \<Rightarrow> splitter" where
  "update_missing_images missing file_name sp =
     (if missing \<noteq> []
      then sp\<lparr>missing_images_by_file :=
                AList.update file_name (map (\<lambda>(name, err). name @ '': '' @ err) missing)
                  (missing_images_by_file sp)\<rparr>
      else sp)"

definition split_file ::
  "pylib \<Rightarrow> splitter \<Rightarrow> filesystem \<Rightarrow> string \<Rightarrow> string
     \<Rightarrow> (error + string list) \<times> splitter \<times> filesystem"
where
  "split_file L sp fs input_path output_dir =
     (let images_dir = path_join output_dir ''images''
      in case read_file L fs input_path of
           Inl e \<Rightarrow> (Inl e, sp, fs)
         | Inr text \<Rightarrow>
             (case parse L (MHTMLParser (Some text) True) of
                (Some e, p) \<Rightarrow> (Inl e, sp, fs)
              | (None, p) \<Rightarrow>
                  let base_name = splitext_root (basename input_path)
                  in (case get_html L p False of
                        Inl e \<Rightarrow> (Inl e, sp, fs)
                      | Inr html_content \<Rightarrow>
                          (case extract_images L images_dir (p, fs) of
                             (p', fs') \<Rightarrow>
                               let registry = image_paths p';
                                   sp' = update_missing_images (missing_images p') base_name sp
                               in if int (length text) \<le> max_size_mb sp * 1024 * 1024 then
                                    let output_path = path_join output_dir (base_name @ ''.html'')
                                    in (Inr [output_path], sp',
                                        save_html_file fs' output_path html_content registry)
                                  else
                                    (case split_large_file sp fs' html_content base_name
                                            output_dir registry of
                                       (paths, fs'') \<Rightarrow> (Inr paths, sp', fs''))))))"

text \<open>The tokens the rewrite looks for: \<^verbatim>\<open>cid:<id>\<close> and \<^verbatim>\<open>"<id>"\<close> of a registered id.\<close>

definition has_ref :: "string \<Rightarrow> pydict \<Rightarrow> bool" where
  "has_ref content registry =
     list_ex (\<lambda>(img_name, img_path).
        contains content (''cid:'' @ img_name) \<or> contains content (DQ # img_name @ [DQ]))
       registry"

section \<open>Notions for the statements\<close>

text \<open>
  The parts that one run of \<^verbatim>\<open>parse\<close> recognises, as a function of the text alone:
  \<open>part_of\<close> is the part that \<^const>\<open>close_part\<close> appends, if any, \<open>segment\<close> walks
  the lines as the loop of \<^const>\<open>parse\<close> does.
\<close>

definition part_of :: "pylib \<Rightarrow> string list \<Rightarrow> bool \<Rightarrow> part list" where
  "part_of L current_part in_content =
     (if current_part \<noteq> [] \<and> in_content then
        (let v = scan_part current_part
         in if content_type v \<noteq> [] \<or> resource_id_of v \<noteq> []
            then [(content_type v, resource_id_of v, decode_content L v)] else [])
      else [])"

fun segment :: "pylib \<Rightarrow> string \<Rightarrow> string list \<Rightarrow> string list \<Rightarrow> bool \<Rightarrow> part list" where
  "segment L b [] current_part in_content = part_of L current_part in_content"
| "segment L b (line # lines) current_part in_content =
     (if contains line b then part_of L current_part in_content @ segment L b lines [] True
      else if in_content then segment L b lines (current_part @ [line]) in_content
      else segment L b lines current_part in_content)"

definition recognized :: "pylib \<Rightarrow> string \<Rightarrow> part list" where
  "recognized L text =
     (case find_boundary (splitlines text) of
        None \<Rightarrow> []
      | Some b \<Rightarrow> segment L b (splitlines text) [] False)"

text \<open>
  A library for the examples. It agrees with CPython on the inputs that the examples
  give it: \<^verbatim>\<open>aGk=\<close> is the base64 text of \<^verbatim>\<open>hi\<close>, the other payloads of the
  examples have a wrong padding, the digests are the MD5 digests of the texts
  named, ASCII text without escapes decodes to itself, and every file can be written.
  Elsewhere its values are arbitrary. The theorems hold for every library; only closed examples use this one.
\<close>

definition example_lib :: pylib where
  "example_lib =
     \<lparr>b64decode = (\<lambda>s. if s = ''aGk='' then Inr ''hi'' else Inl ''Incorrect padding''),
      quopri_decodestring = (\<lambda>s. Inr s),
      utf8_decode_ignore = (\<lambda>s. s),
      decode_strict = (\<lambda>enc s. Some s),
      md5_hexdigest = (\<lambda>s.
         if s = ''aGk='' then ''9a2fc0017af31b9194a45fb6819e6daa''
         else if s = ''abc'' then ''900150983cd24fb0d6963f7d28e17f72''
         else if s = ''AAC5PA=='' then ''5e9d0aba2fe1b27e5abc47466ef03b06''
         else if s = ''AAEcrg=='' then ''5e9d0abaa431ce11ec70f53b15ae950f''
         else ''d41d8cd98f00b204e9800998ecf8427e''),
      re_template = (\<lambda>t. None),
      write_failure = (\<lambda>path bytes. None)\<rparr>"

text \<open>
  The document of the examples: a page that shows one image, and the image.
\<close>

definition example_doc :: string where
  "example_doc = join [LF]
     [''Content-Type: multipart/related; boundary=\"AAA\"'',
      [],
      ''--AAA'',
      ''Content-Type: text/html'',
      [],
      ''<img src=\"cid:img1\">'',
      ''--AAA'',
      ''Content-Type: image/png'',
      ''Content-Transfer-Encoding: base64'',
      ''Content-ID: <img1>'',
      [],
      ''aGk='',
      ''--AAA--'']"

text \<open>
  Two more documents: one whose page is empty, and one whose page refers to the image in
  single quotes.
\<close>

definition empty_page_doc :: string where
  "empty_page_doc = join [LF]
     [''Content-Type: multipart/related; boundary=\"AAA\"'',
      [],
      ''--AAA'',
      ''Content-Type: text/html'',
      ''Content-Location: page.html'',
      [],
      ''--AAA--'']"

definition single_quote_doc :: string where
  "single_quote_doc = join [LF]
     [''Content-Type: multipart/related; boundary=\"AAA\"'',
      [],
      ''--AAA'',
      ''Content-Type: text/html'',
      [],
      ''<img src='' @ [SQ] @ ''cid:img1'' @ [SQ] @ ''>'',
      ''--AAA'',
      ''Content-Type: image/png'',
      ''Content-Transfer-Encoding: base64'',
      ''Content-ID: <img1>'',
      [],
      ''aGk='',
      ''--AAA--'']"

text \<open>
  The two substitutions that the embedded branch of \<^verbatim>\<open>get_html\<close> makes for one
  entry of its image map, when the data URI holds no backslash: \<open>data_uri_src\<close> is the
  replacement text, \<open>embed_one\<close> substitutes it for \<^verbatim>\<open>src="cid:<id>"\<close> and then for
  \<^verbatim>\<open>src="<id>"\<close>.
\<close>

definition data_uri_src :: "string \<Rightarrow> string \<Rightarrow> string" where
  "data_uri_src ct content = ''src='' @ [DQ] @ ''data:'' @ ct @ '';base64,'' @ content @ [DQ]"

definition embed_one :: "string \<times> string \<times> string \<Rightarrow> string \<Rightarrow> string" where
  "embed_one entry html =
     (case entry of (name, ct, content) \<Rightarrow>
        sub_ci (map Lit (''src='' @ [DQ] @ name @ [DQ])) (\<lambda>m. data_uri_src ct content)
          (sub_ci (map Lit (''src='' @ [DQ] @ ''cid:'' @ name @ [DQ]))
             (\<lambda>m. data_uri_src ct content) html))"

text \<open>
  Notions for \<^verbatim>\<open>extract_images\<close>: the parts that the loop does not skip; what the library makes of the payload of a part, with its whitespace
  removed; the path that the image of a part is written to; and the text that the inner
  handler puts before the message of an error.

  What one part adds, each a list of one entry or none: \<open>failed_entry\<close> is the entry
  of the log for an image part whose payload the library rejects or whose file cannot be
  written, \<open>registered_entry\<close> the entry of the registry for an image part that was
  decoded and written, \<open>written_file\<close> the path and the bytes that the part leaves in
  the file system. \<open>failed_log\<close>, \<open>registered\<close> and \<open>written\<close> collect them
  over a dataset, in its order.
\<close>

definition is_image_part :: "part \<Rightarrow> bool" where
  "is_image_part pt = (case pt of (ct, name, content) \<Rightarrow> startswith ct ''image/'' \<and> name \<noteq> [])"

definition payload_of :: "pylib \<Rightarrow> part \<Rightarrow> string + string" where
  "payload_of L pt = (case pt of (ct, name, content) \<Rightarrow> b64decode_str L (remove_whitespace content))"

definition image_file_of :: "pylib \<Rightarrow> string \<Rightarrow> part \<Rightarrow> string" where
  "image_file_of L output_dir pt =
     (case pt of (ct, name, content) \<Rightarrow>
        path_join output_dir (generate_image_filename L name content ct))"

definition failed_prefix :: string where
  "failed_prefix = ''Failed to decode/save image: ''"







text \<open>
  The library of the examples on a disk that is full: every file can be opened, which
  leaves it empty, and no byte can be written.
\<close>

definition full_disk_lib :: pylib where
  "full_disk_lib =
     example_lib\<lparr>write_failure :=
       (\<lambda>path bytes. Some (''[Errno 28] No space left on device'', Some []))\<rparr>"




text \<open>
  The accounted size of an output file as the specification defines it: the UTF-8 length
  of each of its lines plus, for every image of the registry whose resource id occurs in
  the line, the size of the image file that \<^verbatim>\<open>extract_images\<close> wrote, which is the
  file of that name in the images directory. It is to be compared with
  \<^const>\<open>calculate_line_images_size\<close>, which reads the path stored in the registry.
\<close>

fun claimed_line_images_size :: "filesystem \<Rightarrow> string \<Rightarrow> string \<Rightarrow> pydict \<Rightarrow> nat" where
  "claimed_line_images_size fs images_dir line [] = 0"
| "claimed_line_images_size fs images_dir line ((img_name, fname) # rest) =
     (if contains line img_name
      then (case fs (path_join images_dir fname) of Some bytes \<Rightarrow> length bytes | None \<Rightarrow> 0)
      else 0)
     + claimed_line_images_size fs images_dir line rest"

definition claimed_accounted_size :: "filesystem \<Rightarrow> string \<Rightarrow> pydict \<Rightarrow> string list \<Rightarrow> nat" where
  "claimed_accounted_size fs images_dir registry lines =
     sum_list (map (\<lambda>line. length (encode_utf8 line)
                      + claimed_line_images_size fs images_dir line registry) lines)"

text \<open>
  A page of four lines that shows two images, the registry that \<^verbatim>\<open>extract_images\<close>
  returns for them, and a file system that holds the two extracted images, 600000 bytes
  each, in \<^verbatim>\<open>out/images\<close>.
\<close>

definition two_images_html :: string where
  "two_images_html = join [LF]
     [''<html><body>'', ''<img src=\"cid:img1\">'', ''<img src=\"cid:img2\">'', ''</body></html>'']"

definition two_images_registry :: pydict where
  "two_images_registry = [(''img1'', ''img1_9a2fc001.png''), (''img2'', ''img2_0cc175b9.png'')]"

definition two_images_fs :: filesystem where
  "two_images_fs =
     [''out/images/img1_9a2fc001.png'' \<mapsto> replicate 600000 (CHR 0x00),
      ''out/images/img2_0cc175b9.png'' \<mapsto> replicate 600000 (CHR 0x00)]"

text \<open>
  The loop of \<^verbatim>\<open>_split_large_file\<close> without the files: \<open>line_cost\<close> is what the
  loop adds for a line, \<open>split_run\<close> walks the lines with the current buffer and its
  size and returns the buffers that were saved on the way with the last buffer and size,
  \<open>split_parts\<close> are all the buffers saved, the last one too when it is not empty.
  \<open>out_path\<close> is the path of the file with a given number, \<open>write_parts\<close> saves
  a list of buffers under consecutive numbers, and a buffer is \<open>within\<close> the limit
  when the costs of its lines add up to the limit at most or it has one line at most.
\<close>

definition line_cost :: "filesystem \<Rightarrow> pydict \<Rightarrow> string \<Rightarrow> int" where
  "line_cost fs registry line =
     int (length (encode_utf8 line)) + int (calculate_line_images_size fs line registry)"

definition out_path :: "string \<Rightarrow> string \<Rightarrow> nat \<Rightarrow> string" where
  "out_path output_dir base_name k =
     path_join output_dir (base_name @ ''_'' @ str_nat k @ ''.html'')"

fun split_run :: "int \<Rightarrow> (string \<Rightarrow> int) \<Rightarrow> string list \<Rightarrow> string list \<Rightarrow> int
    \<Rightarrow> string list list \<times> string list \<times> int" where
  "split_run limit cost [] cur sz = ([], cur, sz)"
| "split_run limit cost (line # lines) cur sz =
     (if sz + cost line > limit
      then (case split_run limit cost lines [line] (cost line) of
              (parts, cur', sz') \<Rightarrow> (cur # parts, cur', sz'))
      else split_run limit cost lines (cur @ [line]) (sz + cost line))"

definition split_parts :: "int \<Rightarrow> (string \<Rightarrow> int) \<Rightarrow> string list \<Rightarrow> string list list" where
  "split_parts limit cost lines =
     (case split_run limit cost lines [] 0 of
        (parts, cur, sz) \<Rightarrow> parts @ (if cur \<noteq> [] then [cur] else []))"

fun write_parts :: "string \<Rightarrow> string \<Rightarrow> string \<Rightarrow> pydict \<Rightarrow> nat \<Rightarrow> string list list
    \<Rightarrow> filesystem \<Rightarrow> filesystem" where
  "write_parts header base_name output_dir registry k [] fs = fs"
| "write_parts header base_name output_dir registry k (part # parts) fs =
     write_parts header base_name output_dir registry (Suc k) parts
       (save_html_file fs (out_path output_dir base_name k)
          (build_html_content header part) registry)"

definition within :: "int \<Rightarrow> (string \<Rightarrow> int) \<Rightarrow> string list \<Rightarrow> bool" where
  "within limit cost part \<longleftrightarrow> sum_list (map cost part) \<le> limit \<or> length part \<le> 1"

text \<open>
  What it means to replace every occurrence of a text, said without the loops of
  \<^const>\<open>str_replace\<close> and \<^const>\<open>sub_ci\<close>, which are to be compared with it. Two
  characters are taken for equal when \<open>nc\<close> maps them to the same character: the
  identity for \<^verbatim>\<open>str.replace\<close>, \<^const>\<open>lower_char\<close> for a pattern of literals
  under \<^verbatim>\<open>re.IGNORECASE\<close>. \<open>occurs_at\<close> says that \<open>w\<close> occurs in \<open>s\<close> at
  position \<open>i\<close>, \<open>occurs\<close> that it occurs somewhere. \<open>replaced nc w r s t\<close> says
  that \<open>t\<close> is \<open>s\<close> with every occurrence of \<open>w\<close> replaced by \<open>r\<close>, the
  occurrences taken leftmost first and not overlapping: either \<open>w\<close> does not occur in
  \<open>s\<close> and \<open>t\<close> is \<open>s\<close>, or \<open>s\<close> is \<open>a @ m @ rest\<close>, where \<open>m\<close> is the
  first occurrence (none ends before the last character of \<open>m\<close>), and \<open>t\<close> is
  \<open>a @ r @ t'\<close>, where \<open>t'\<close> is \<open>rest\<close> with every occurrence replaced.
\<close>

definition occurs_at :: "(char \<Rightarrow> char) \<Rightarrow> string \<Rightarrow> string \<Rightarrow> nat \<Rightarrow> bool" where
  "occurs_at nc w s i \<longleftrightarrow>
     i + length w \<le> length s \<and> map nc (take (length w) (drop i s)) = map nc w"

definition occurs :: "(char \<Rightarrow> char) \<Rightarrow> string \<Rightarrow> string \<Rightarrow> bool" where
  "occurs nc w s \<longleftrightarrow> (\<exists>i \<in> {..length s}. occurs_at nc w s i)"

inductive replaced :: "(char \<Rightarrow> char) \<Rightarrow> string \<Rightarrow> string \<Rightarrow> string \<Rightarrow> string \<Rightarrow> bool"
  for nc w r where
  none: "\<not> occurs nc w s \<Longrightarrow> replaced nc w r s s"
| one: "\<not> occurs nc w (a @ butlast m) \<Longrightarrow> map nc m = map nc w \<Longrightarrow> replaced nc w r rest t
        \<Longrightarrow> replaced nc w r (a @ m @ rest) (a @ r @ t)"

text \<open>
  The embedded branch of \<^verbatim>\<open>get_html\<close>, said with \<^const>\<open>replaced\<close>:
  \<open>embedded m h h'\<close> says that \<open>h'\<close> is the page \<open>h\<close> after, for each entry of
  the image map \<open>m\<close> in turn, every \<^verbatim>\<open>src="cid:<id>"\<close> and then every
  \<^verbatim>\<open>src="<id>"\<close>, letters in either case, is replaced by the data URI of the entry.
  \<open>image_entries\<close> are the image parts of a dataset, in its order, each as an entry of
  the image map.
\<close>

inductive embedded :: "(string \<times> string \<times> string) list \<Rightarrow> string \<Rightarrow> string \<Rightarrow> bool" where
  base: "embedded [] h h"
| entry: "replaced lower_char (''src='' @ [DQ] @ ''cid:'' @ name @ [DQ]) (data_uri_src ct content) h h1
     \<Longrightarrow> replaced lower_char (''src='' @ [DQ] @ name @ [DQ]) (data_uri_src ct content) h1 h2
     \<Longrightarrow> embedded rest h2 h3
     \<Longrightarrow> embedded ((name, ct, content) # rest) h h3"

definition image_entries :: "part list \<Rightarrow> (string \<times> string \<times> string) list" where
  "image_entries ds =
     map (\<lambda>(ct, name, content). (name, ct, content))
       (filter (\<lambda>(ct, name, content). startswith ct ''image/'') ds)"

text \<open>
  A document whose page refers to its image three times, in capitals, in small letters
  and without \<^verbatim>\<open>cid:\<close>.
\<close>

definition mixed_case_doc :: string where
  "mixed_case_doc = join [LF]
     [''Content-Type: multipart/related; boundary=\"AAA\"'',
      [],
      ''--AAA'',
      ''Content-Type: text/html'',
      [],
      ''<img SRC=\"CID:IMG1\"><img src=\"cid:img1\"><IMG Src=\"Img1\">'',
      ''--AAA'',
      ''Content-Type: image/png'',
      ''Content-Transfer-Encoding: base64'',
      ''Content-ID: <img1>'',
      [],
      ''aGk='',
      ''--AAA--'']"



text \<open>
  Notions for rewriting twice. A token \<open>x\<close> \<open>overlaps\<close> an inserted text \<open>r\<close>
  when one of them holds the other, or a proper end of \<open>x\<close> is a start of \<open>r\<close>
  (\<open>tail_overlap\<close>), or a proper start of \<open>x\<close> is an end of \<open>r\<close>: these are the
  ways in which an occurrence of \<open>x\<close> can share characters with an occurrence of
  \<open>r\<close>. \<open>substituted old new s t\<close> says that \<open>t\<close> is \<open>s\<close> with \<open>new\<close>
  put for some occurrences of \<open>old\<close>. A registry is clean when no id and no file name
  in it holds a double quote and no token \<^verbatim>\<open>cid:<id>\<close> of it overlaps an inserted
  path \<^verbatim>\<open>images/<file name>\<close> of it. A content has a doubled reference when it
  holds an id of the registry twice in a row between double quotes, the quote in the
  middle shared: \<^verbatim>\<open>"<id>"<id>"\<close>.
\<close>

fun tail_overlap :: "string \<Rightarrow> string \<Rightarrow> bool" where
  "tail_overlap [] r = False"
| "tail_overlap (c # cs) r = ((cs \<noteq> [] \<and> startswith r cs) \<or> tail_overlap cs r)"

definition overlaps :: "string \<Rightarrow> string \<Rightarrow> bool" where
  "overlaps x r \<longleftrightarrow>
     contains x r \<or> contains r x \<or> tail_overlap x r \<or> tail_overlap (rev x) (rev r)"

inductive substituted :: "string \<Rightarrow> string \<Rightarrow> string \<Rightarrow> string \<Rightarrow> bool" for old new where
  same: "substituted old new s s"
| put: "substituted old new rest t \<Longrightarrow> substituted old new (a @ old @ rest) (a @ new @ t)"

definition clean_registry :: "pydict \<Rightarrow> bool" where
  "clean_registry registry \<longleftrightarrow>
     list_all (\<lambda>(img_name, img_path).
        DQ \<notin> set img_name \<and> DQ \<notin> set (basename img_path)
        \<and> list_all (\<lambda>(n, f). \<not> overlaps (''cid:'' @ n) (''images/'' @ basename img_path))
            registry)
       registry"

definition doubled_ref :: "string \<Rightarrow> pydict \<Rightarrow> bool" where
  "doubled_ref content registry =
     list_ex (\<lambda>(img_name, img_path). contains content (DQ # img_name @ DQ # img_name @ [DQ]))
       registry"

section \<open>Evaluating the examples\<close>

lemmas eval_defs = strip_def isspace_def lower_def
  value_after_equals_def str_split_def rstrip_chars_def strip_chars_def
  scan_part_def process_line_def part_vars_init_def get_header_value_def decode_content_def
  resource_id_of_def decode_base64_def remove_whitespace_def encode_utf8_def Let_def

lemma example_doc_lines:
  "splitlines example_doc =
     [''Content-Type: multipart/related; boundary=\"AAA\"'', [], ''--AAA'',
      ''Content-Type: text/html'', [], ''<img src=\"cid:img1\">'', ''--AAA'',
      ''Content-Type: image/png'', ''Content-Transfer-Encoding: base64'',
      ''Content-ID: <img1>'', [], ''aGk='', ''--AAA--'']"
  by (simp add: example_doc_def splitlines_def is_linebreak_def)

lemma example_doc_boundary: "find_boundary (splitlines example_doc) = Some ''AAA''"
  by (simp add: example_doc_lines eval_defs)

lemma example_doc_recognized:
  "recognized L example_doc =
     [(''text/html'', [], ''<img src=\"cid:img1\">''), (''image/png'', ''img1'', ''aGk='')]"
  by (simp add: recognized_def example_doc_boundary) (simp add: example_doc_lines part_of_def eval_defs)

lemma ex_scan:
  "scan_part [''Content-Type: text/plain'', ''Content-Transfer-Encoding: BASE64'', [], ''aGk=''] =
     \<lparr>content_type = ''text/plain'', content_location = [], content_encoding = ''BASE64'',
      filename = [], content_id = [], charset = ''utf-8'', content_lines = [''aGk=''],
      header_done = True\<rparr>"
  by (simp add: scan_part_def process_line_def part_vars_init_def strip_def isspace_def lower_def
      get_header_value_def rstrip_chars_def Let_def)

lemma empty_page_doc_lines:
  "splitlines empty_page_doc =
     [''Content-Type: multipart/related; boundary=\"AAA\"'', [], ''--AAA'',
      ''Content-Type: text/html'', ''Content-Location: page.html'', [], ''--AAA--'']"
  by (simp add: empty_page_doc_def splitlines_def is_linebreak_def)

lemma empty_page_doc_boundary: "find_boundary (splitlines empty_page_doc) = Some ''AAA''"
  by (simp add: empty_page_doc_lines eval_defs)

lemma empty_page_doc_recognized:
  "recognized L empty_page_doc = [(''text/html'', ''page.html'', [])]"
  by (simp add: recognized_def empty_page_doc_boundary) (simp add: empty_page_doc_lines part_of_def eval_defs)

lemma single_quote_doc_lines:
  "splitlines single_quote_doc =
     [''Content-Type: multipart/related; boundary=\"AAA\"'', [], ''--AAA'',
      ''Content-Type: text/html'', [], ''<img src='' @ [SQ] @ ''cid:img1'' @ [SQ] @ ''>'', ''--AAA'',
      ''Content-Type: image/png'', ''Content-Transfer-Encoding: base64'',
      ''Content-ID: <img1>'', [], ''aGk='', ''--AAA--'']"
  by (simp add: single_quote_doc_def splitlines_def is_linebreak_def)

lemma single_quote_doc_boundary: "find_boundary (splitlines single_quote_doc) = Some ''AAA''"
  by (simp add: single_quote_doc_lines eval_defs)

lemma single_quote_doc_recognized:
  "recognized L single_quote_doc =
     [(''text/html'', [], ''<img src='' @ [SQ] @ ''cid:img1'' @ [SQ] @ ''>''),
      (''image/png'', ''img1'', ''aGk='')]"
  by (simp add: recognized_def single_quote_doc_boundary)
     (simp add: single_quote_doc_lines part_of_def eval_defs)








lemma two_images_lines:
  "str_split two_images_html [LF] =
     [''<html><body>'', ''<img src=\"cid:img1\">'', ''<img src=\"cid:img2\">'', ''</body></html>'']"
  by (simp add: two_images_html_def str_split_def)

lemma two_images_header: "extract_header_template two_images_html = ''<html><body>''"
  by (simp add: two_images_html_def extract_header_template_def)

lemma mixed_case_doc_lines:
  "splitlines mixed_case_doc =
     [''Content-Type: multipart/related; boundary=\"AAA\"'', [], ''--AAA'',
      ''Content-Type: text/html'', [],
      ''<img SRC=\"CID:IMG1\"><img src=\"cid:img1\"><IMG Src=\"Img1\">'', ''--AAA'',
      ''Content-Type: image/png'', ''Content-Transfer-Encoding: base64'',
      ''Content-ID: <img1>'', [], ''aGk='', ''--AAA--'']"
  by (simp add: mixed_case_doc_def splitlines_def is_linebreak_def)

lemma mixed_case_doc_boundary: "find_boundary (splitlines mixed_case_doc) = Some ''AAA''"
  by (simp add: mixed_case_doc_lines eval_defs)

lemma mixed_case_doc_recognized:
  "recognized L mixed_case_doc =
     [(''text/html'', [], ''<img SRC=\"CID:IMG1\"><img src=\"cid:img1\"><IMG Src=\"Img1\">''),
      (''image/png'', ''img1'', ''aGk='')]"
  by (simp add: recognized_def mixed_case_doc_boundary) (simp add: mixed_case_doc_lines part_of_def eval_defs)




section \<open>Replacing every occurrence\<close>

text \<open>
  \<^const>\<open>startswith\<close> and \<^const>\<open>contains\<close> are the prefix and the contiguous
  sublist of the list library.
\<close>

lemma startswith_prefix_iff: "startswith s p \<longleftrightarrow> prefix p s"
  by (induction s p rule: startswith.induct) auto

lemma contains_sublist_iff: "contains s x \<longleftrightarrow> sublist x s"
  by (induction s) (auto simp: startswith_prefix_iff sublist_Cons_right)

text \<open>Occurrences in a longer text.\<close>

lemma occurs_iff: "occurs nc w s \<longleftrightarrow> (\<exists>i. occurs_at nc w s i)"
  by (auto simp: occurs_def occurs_at_def)

lemma occurs_at_Suc: "occurs_at nc w (c # s) (Suc i) = occurs_at nc w s i"
  by (simp add: occurs_at_def)

lemma occurs_Cons: "occurs nc w (c # s) \<longleftrightarrow> occurs_at nc w (c # s) 0 \<or> occurs nc w s"
proof -
  have "(\<exists>i. occurs_at nc w (c # s) i) \<longleftrightarrow> occurs_at nc w (c # s) 0 \<or> (\<exists>i. occurs_at nc w (c # s) (Suc i))"
    by (metis not0_implies_Suc)
  then show ?thesis by (simp add: occurs_iff occurs_at_Suc)
qed

lemma occurs_at_prefix: "occurs_at nc w x i \<Longrightarrow> occurs_at nc w (x @ y) i"
  by (auto simp: occurs_at_def)

lemma occurs_prefix: "occurs nc w x \<Longrightarrow> occurs nc w (x @ y)"
  using occurs_at_prefix by (fastforce simp: occurs_iff)

lemma occurs_at_append: "occurs_at nc w (a @ s) (length a + i) = occurs_at nc w s i"
  by (simp add: occurs_at_def)

lemma occurs_suffix: "occurs nc w s \<Longrightarrow> occurs nc w (a @ s)"
  using occurs_at_append by (fastforce simp: occurs_iff)

lemma occurs_short: "length s < length w \<Longrightarrow> \<not> occurs nc w s"
  by (auto simp: occurs_iff occurs_at_def)

lemma occurs_empty: "occurs nc [] s"
  by (auto simp: occurs_def occurs_at_def)

lemma occurs_match: "map nc m = map nc w \<Longrightarrow> occurs nc w (a @ m @ rest)"
proof -
  assume m: "map nc m = map nc w"
  then have "length m = length w" by (metis length_map)
  with m have "occurs_at nc w (m @ rest) 0" by (simp add: occurs_at_def)
  then have "occurs nc w (m @ rest)" by (auto simp: occurs_iff)
  then show ?thesis by (rule occurs_suffix)
qed

lemma occurs_sublist_iff: "occurs (\<lambda>c. c) w s \<longleftrightarrow> sublist w s"
proof
  assume "occurs (\<lambda>c. c) w s"
  then obtain i where "i + length w \<le> length s" "take (length w) (drop i s) = w"
    by (auto simp: occurs_iff occurs_at_def)
  then have "s = take i s @ w @ drop (length w) (drop i s)"
    by (metis append_take_drop_id)
  then show "sublist w s" unfolding sublist_def by blast
next
  assume "sublist w s"
  then obtain a b where "s = a @ w @ b" by (auto simp: sublist_def)
  then have "occurs_at (\<lambda>c. c) w s (length a)" by (simp add: occurs_at_def)
  then show "occurs (\<lambda>c. c) w s" by (auto simp: occurs_iff)
qed

text \<open>
  The three steps of a loop that replaces from the left: at the end of the text, at a
  match, and at a character where no match starts.
\<close>

lemma replaced_Nil: "w \<noteq> [] \<Longrightarrow> replaced nc w r [] []"
  by (rule replaced.none) (simp add: occurs_short)

lemma replaced_match:
  assumes "w \<noteq> []" and "occurs_at nc w s 0" and "replaced nc w r (drop (length w) s) t"
  shows "replaced nc w r s (r @ t)"
proof -
  let ?m = "take (length w) s"
  from assms(2) have l: "length ?m = length w" and e: "map nc ?m = map nc w"
    by (auto simp: occurs_at_def)
  from l assms(1) have "length (butlast ?m) < length w" by (cases w) auto
  then have "\<not> occurs nc w ([] @ butlast ?m)" by (simp add: occurs_short)
  from replaced.one [OF this e assms(3)] show ?thesis by simp
qed

lemma replaced_skip:
  assumes "replaced nc w r s t" and "\<not> occurs_at nc w (c # s) 0"
  shows "replaced nc w r (c # s) (c # t)"
  using assms
proof (cases rule: replaced.cases)
  case none
  with assms(2) have "\<not> occurs nc w (c # s)" by (simp add: occurs_Cons)
  then show ?thesis using none by (simp add: replaced.none)
next
  case (one a m rest t')
  have "\<not> occurs_at nc w (c # a @ butlast m) 0"
  proof
    assume "occurs_at nc w (c # a @ butlast m) 0"
    then have "occurs_at nc w ((c # a @ butlast m) @ (if m = [] then [] else [last m]) @ rest) 0"
      by (rule occurs_at_prefix)
    moreover have "(c # a @ butlast m) @ (if m = [] then [] else [last m]) @ rest = c # s"
      using one(1) by simp
    ultimately show False using assms(2) by simp
  qed
  with one(3) have "\<not> occurs nc w ((c # a) @ butlast m)" by (simp add: occurs_Cons)
  from replaced.one [OF this one(4,5)] show ?thesis using one(1,2) by simp
qed

text \<open>The specification has one result at most.\<close>

lemma replaced_unique:
  assumes "replaced nc w r s t" and "replaced nc w r s t'"
  shows "t = t'"
  using assms
proof (induction arbitrary: t' rule: replaced.induct)
  case (none s)
  from none.prems none.hyps show ?case
    by (cases rule: replaced.cases) (auto simp: occurs_match)
next
  case (one a m rest t)
  from one.prems show ?case
  proof (cases rule: replaced.cases)
    case none
    with one.hyps(2) show ?thesis by (simp add: occurs_match)
  next
    case (one a' m' rest' u)
    from \<open>map nc m = map nc w\<close> one(4) have lm: "length m = length w" "length m' = length w"
      by (metis length_map)+
    have w: "w \<noteq> []" using one(3) occurs_empty by auto
    have "length a = length a'"
    proof (rule ccontr)
      assume ne: "length a \<noteq> length a'"
      show False
      proof (cases "length a < length a'")
        case True
        have wne: "m' \<noteq> []" using w lm by auto
        let ?x = "a' @ butlast m'"
        have "length (a @ m) \<le> length ?x" using True lm wne by (cases m' rule: rev_cases) auto
        moreover have "a @ m @ rest = ?x @ [last m'] @ rest'"
          using one(1) append_butlast_last_id [OF wne]
          by (metis append.assoc append_Cons append_Nil)
        ultimately have "take (length (a @ m)) ?x = a @ m"
          by (metis append.assoc append_eq_append_conv_if append_take_drop_id)
        then obtain y where "?x = (a @ m) @ y" by (metis append_take_drop_id)
        moreover have "occurs nc w (a @ m @ [])" using \<open>map nc m = map nc w\<close> by (rule occurs_match)
        ultimately have "occurs nc w ?x" using occurs_prefix [of nc w "a @ m" y] by simp
        with one(3) show False by simp
      next
        case False
        with ne have gt: "length a' < length a" by simp
        have wne: "m \<noteq> []" using w lm by auto
        let ?x = "a @ butlast m"
        have "length (a' @ m') \<le> length ?x" using gt lm wne by (cases m rule: rev_cases) auto
        moreover have "a' @ m' @ rest' = ?x @ [last m] @ rest"
          using one(1) [symmetric] append_butlast_last_id [OF wne]
          by (metis append.assoc append_Cons append_Nil)
        ultimately have "take (length (a' @ m')) ?x = a' @ m'"
          by (metis append.assoc append_eq_append_conv_if append_take_drop_id)
        then obtain y where "?x = (a' @ m') @ y" by (metis append_take_drop_id)
        moreover have "occurs nc w (a' @ m' @ [])" using one(4) by (rule occurs_match)
        ultimately have "occurs nc w ?x" using occurs_prefix [of nc w "a' @ m'" y] by simp
        with \<open>\<not> occurs nc w (a @ butlast m)\<close> show False by simp
      qed
    qed
    with one(1) lm have "a = a'" "m = m'" "rest = rest'" by auto
    with one(2,5) one.IH show ?thesis by simp
  qed
qed

text \<open>
  \<^verbatim>\<open>str.replace\<close> and \<^verbatim>\<open>re.sub\<close> with a pattern of literals and a template
  without a backslash replace every occurrence.
\<close>

lemma startswith_occurs_at:
  "startswith s p \<longleftrightarrow> occurs_at (\<lambda>c. c) p s 0"
  by (induction s p rule: startswith.induct) (auto simp: occurs_at_def)

lemma match_ci_occurs_at:
  "match_ci s (map Lit w) \<longleftrightarrow> occurs_at lower_char w s 0"
  by (induction s w rule: startswith.induct) (auto simp: occurs_at_def)

lemma str_replace_replaced:
  "old \<noteq> [] \<Longrightarrow> replaced (\<lambda>c. c) old new s (str_replace s old new)"
proof (induction s old new rule: str_replace.induct)
  case (1 old new)
  then show ?case by (simp add: replaced_Nil)
next
  case (2 c cs old new)
  show ?case
  proof (cases "startswith (c # cs) old")
    case True
    with 2 have "replaced (\<lambda>c. c) old new (drop (length old) (c # cs))
        (str_replace (drop (length old) (c # cs)) old new)" by simp
    from replaced_match [OF "2.prems" True [unfolded startswith_occurs_at] this]
    show ?thesis using True "2.prems" by simp
  next
    case False
    with 2 have "replaced (\<lambda>c. c) old new cs (str_replace cs old new)" by simp
    from replaced_skip [OF this False [unfolded startswith_occurs_at]]
    show ?thesis using False "2.prems" by simp
  qed
qed

lemma sub_ci_replaced:
  "w \<noteq> [] \<Longrightarrow> replaced lower_char w r s (sub_ci (map Lit w) (\<lambda>m. r) s)"
proof (induction s rule: length_induct)
  case (1 s)
  show ?case
  proof (cases s)
    case Nil
    with 1 show ?thesis by (simp add: replaced_Nil)
  next
    case (Cons c cs)
    show ?thesis
    proof (cases "match_ci (c # cs) (map Lit w)")
      case True
      have "length (drop (length w) (c # cs)) < length s" using 1(2) Cons by (cases w) auto
      with 1 have "replaced lower_char w r (drop (length w) (c # cs))
          (sub_ci (map Lit w) (\<lambda>m. r) (drop (length w) (c # cs)))" by blast
      from replaced_match [OF "1.prems" True [unfolded match_ci_occurs_at] this]
      show ?thesis using True "1.prems" Cons by simp
    next
      case False
      from 1 Cons have "replaced lower_char w r cs (sub_ci (map Lit w) (\<lambda>m. r) cs)" by simp
      from replaced_skip [OF this False [unfolded match_ci_occurs_at]]
      show ?thesis using False "1.prems" Cons by simp
    qed
  qed
qed

section \<open>Parsing\<close>

lemma close_part_dataset:
  "dataset (close_part L cur inc p) = dataset p @ part_of L cur inc"
  by (simp add: close_part_def part_of_def process_part_def Let_def)

lemma close_part_content:
  "mhtml_content (close_part L cur inc p) = mhtml_content p"
  by (simp add: close_part_def process_part_def Let_def)

lemma parse_line_simp:
  "parse_line L b line (cur, inc, p) =
     (if contains line b then ([], True, close_part L cur inc p)
      else if inc then (cur @ [line], inc, p) else (cur, inc, p))"
  by (simp add: parse_line_def)

lemma fold_parse_line:
  "fold (parse_line L b) lines (cur, inc, p) = (cur', inc', p') \<Longrightarrow>
     dataset (close_part L cur' inc' p') = dataset p @ segment L b lines cur inc
     \<and> mhtml_content p' = mhtml_content p"
proof (induction lines arbitrary: cur inc p)
  case Nil
  then show ?case by (simp add: close_part_dataset)
next
  case (Cons line lines)
  show ?case
  proof (cases "contains line b")
    case True
    with Cons.prems have "fold (parse_line L b) lines ([], True, close_part L cur inc p) = (cur', inc', p')"
      by (simp add: parse_line_simp)
    from Cons.IH [OF this] True show ?thesis
      by (simp add: close_part_dataset close_part_content)
  next
    case False
    show ?thesis
    proof (cases inc)
      case True
      with False Cons.prems have "fold (parse_line L b) lines (cur @ [line], inc, p) = (cur', inc', p')"
        by (simp add: parse_line_simp)
      from Cons.IH [OF this] False True show ?thesis by simp
    next
      case inc: False
      with False Cons.prems have "fold (parse_line L b) lines (cur, inc, p) = (cur', inc', p')"
        by (simp add: parse_line_simp)
      from Cons.IH [OF this] False inc show ?thesis by simp
    qed
  qed
qed

lemma parse_success_iff:
  "fst (parse L p) = None \<longleftrightarrow>
     (\<exists>text b. mhtml_content p = Some text \<and> text \<noteq> [] \<and> find_boundary (splitlines text) = Some b \<and> b \<noteq> [])"
  by (auto simp: parse_def Let_def split: option.splits prod.splits)

lemma parse_dataset:
  assumes "fst (parse L p) = None" and "mhtml_content p = Some text"
  shows "dataset (snd (parse L p)) = dataset p @ recognized L text"
    and "mhtml_content (snd (parse L p)) = Some text"
proof -
  from assms obtain b where ne: "text \<noteq> []" and b: "find_boundary (splitlines text) = Some b" and bne: "b \<noteq> []"
    by (auto simp: parse_success_iff)
  obtain cur inc p2 where f: "fold (parse_line L b) (splitlines text) ([], False, p\<lparr>boundary := Some b\<rparr>) = (cur, inc, p2)"
    by (cases "fold (parse_line L b) (splitlines text) ([], False, p\<lparr>boundary := Some b\<rparr>)") auto
  have eq: "snd (parse L p) = close_part L cur inc p2"
    using assms(2) ne b bne f by (simp add: parse_def Let_def)
  from fold_parse_line [OF f] show "dataset (snd (parse L p)) = dataset p @ recognized L text"
    by (simp add: eq recognized_def b)
  from fold_parse_line [OF f] show "mhtml_content (snd (parse L p)) = Some text"
    by (simp add: eq close_part_content assms(2))
qed

lemma close_part_fields:
  "image_paths (close_part L cur inc p) = image_paths p"
  "missing_images (close_part L cur inc p) = missing_images p"
  "decode_images (close_part L cur inc p) = decode_images p"
  by (simp_all add: close_part_def process_part_def Let_def)

lemma fold_parse_line_fields:
  "fold (parse_line L b) lines (cur, inc, p) = (cur', inc', p') \<Longrightarrow>
     image_paths p' = image_paths p \<and> missing_images p' = missing_images p
     \<and> decode_images p' = decode_images p"
proof (induction lines arbitrary: cur inc p)
  case Nil
  then show ?case by simp
next
  case (Cons line lines)
  from Cons.prems have "fold (parse_line L b) lines (parse_line L b line (cur, inc, p)) = (cur', inc', p')"
    by simp
  then show ?case
    by (auto simp: parse_line_simp close_part_fields split: if_splits dest!: Cons.IH)
qed

lemma parse_fields:
  "image_paths (snd (parse L p)) = image_paths p
   \<and> missing_images (snd (parse L p)) = missing_images p
   \<and> decode_images (snd (parse L p)) = decode_images p"
proof (cases "fst (parse L p) = None")
  case True
  then obtain s b where t: "mhtml_content p = Some s" "s \<noteq> []"
      "find_boundary (splitlines s) = Some b" "b \<noteq> []"
    by (auto simp: parse_success_iff)
  obtain cur inc p2 where f: "fold (parse_line L b) (splitlines s) ([], False, p\<lparr>boundary := Some b\<rparr>) = (cur, inc, p2)"
    by (cases "fold (parse_line L b) (splitlines s) ([], False, p\<lparr>boundary := Some b\<rparr>)") auto
  have eq: "snd (parse L p) = close_part L cur inc p2"
    using t f by (simp add: parse_def Let_def)
  from fold_parse_line_fields [OF f] show ?thesis by (simp add: eq close_part_fields)
next
  case False
  then show ?thesis
    by (auto simp: parse_def Let_def split: option.splits if_splits prod.splits)
qed

lemma parse_fresh:
  "text \<noteq> [] \<Longrightarrow> find_boundary (splitlines text) = Some b \<Longrightarrow> b \<noteq> [] \<Longrightarrow>
     fst (parse L (MHTMLParser (Some text) di)) = None
     \<and> dataset (snd (parse L (MHTMLParser (Some text) di))) = recognized L text"
proof -
  assume a: "text \<noteq> []" "find_boundary (splitlines text) = Some b" "b \<noteq> []"
  have c: "mhtml_content (MHTMLParser (Some text) di) = Some text" by (simp add: MHTMLParser_def)
  from a c have ok: "fst (parse L (MHTMLParser (Some text) di)) = None"
    by (simp add: parse_success_iff)
  from parse_dataset(1) [OF ok c] ok show ?thesis by (simp add: MHTMLParser_def)
qed

text \<open>
  C5: when no line of the text yields a boundary value, \<^verbatim>\<open>parse\<close> raises its
  ValueError (the format error of the specification; for an empty text the one about the
  missing content) and appends nothing: the dataset is as before the call, and empty on
  a parser that was just made.
\<close>

theorem parse_no_boundary:
  assumes "find_boundary (splitlines text) = None" and "mhtml_content p = Some text"
  shows "fst (parse L p) = Some (ValueError (if text = [] then ''No MHTML content set''
            else ''Could not find boundary in MHTML content''))
    \<and> dataset (snd (parse L p)) = dataset p
    \<and> dataset (snd (parse L (MHTMLParser (Some text) di))) = []"
  using assms by (simp add: parse_def Let_def MHTMLParser_def)

theorem parse_no_boundary_witness:
  "find_boundary (splitlines ''<html>hello</html>'') = None
   \<and> fst (parse example_lib (MHTMLParser (Some ''<html>hello</html>'') True))
       = Some (ValueError ''Could not find boundary in MHTML content'')
   \<and> dataset (snd (parse example_lib (MHTMLParser (Some ''<html>hello</html>'') True))) = []"
proof -
  have nb: "find_boundary (splitlines ''<html>hello</html>'') = None"
    by (simp add: splitlines_def is_linebreak_def strip_def isspace_def lower_def)
  have c: "mhtml_content (MHTMLParser (Some ''<html>hello</html>'') True) = Some ''<html>hello</html>''"
    by (simp add: MHTMLParser_def)
  from parse_no_boundary [OF nb c, of example_lib True] nb show ?thesis
    by (simp add: MHTMLParser_def)
qed

text \<open>
  C10: \<^verbatim>\<open>parse\<close> never clears the dataset. A run that succeeds appends the parts it
  recognises to the parts already stored; a second run on the same parser succeeds too
  and appends the same parts once more, after the first copy.
\<close>

theorem parse_twice_appends:
  assumes "fst (parse L p) = None" and "mhtml_content p = Some text"
  shows "fst (parse L (snd (parse L p))) = None
    \<and> dataset (snd (parse L p)) = dataset p @ recognized L text
    \<and> dataset (snd (parse L (snd (parse L p)))) = dataset p @ recognized L text @ recognized L text"
proof -
  have c: "mhtml_content (snd (parse L p)) = Some text" by (rule parse_dataset(2) [OF assms])
  have ok: "fst (parse L (snd (parse L p))) = None"
    using assms c by (simp add: parse_success_iff)
  from parse_dataset(1) [OF ok c] parse_dataset(1) [OF assms] ok show ?thesis by simp
qed

theorem parse_twice_appends_witness:
  "dataset (snd (parse example_lib (snd (parse example_lib (MHTMLParser (Some example_doc) True))))) =
     [(''text/html'', [], ''<img src=\"cid:img1\">''), (''image/png'', ''img1'', ''aGk=''),
      (''text/html'', [], ''<img src=\"cid:img1\">''), (''image/png'', ''img1'', ''aGk='')]"
proof -
  have c: "mhtml_content (MHTMLParser (Some example_doc) True) = Some example_doc"
    by (simp add: MHTMLParser_def)
  have "example_doc \<noteq> []" by (simp add: example_doc_def)
  then have ok: "fst (parse example_lib (MHTMLParser (Some example_doc) True)) = None"
    by (simp add: parse_success_iff c example_doc_boundary)
  from parse_twice_appends [OF ok c] show ?thesis
    by (simp add: example_doc_recognized MHTMLParser_def)
qed

section \<open>The decode policy of a part\<close>

lemma process_part_result:
  "fst (process_part L lines p) =
     (content_type (scan_part lines), resource_id_of (scan_part lines), decode_content L (scan_part lines))"
  by (simp add: process_part_def Let_def)

text \<open>
  C3, as stated: for every part, a base64 content whose type is not an image type is
  stored decoded, and every other content decoded from quoted-printable or unchanged.
  When the library rejects the payload, \<^verbatim>\<open>_decode_base64\<close> returns the text from
  which it has removed the whitespace. The part below has the content lines
  \<^verbatim>\<open>a b\<close> and \<^verbatim>\<open>c\<close>; its payload \<^verbatim>\<open>abc\<close> has a wrong padding, and what is
  stored is \<^verbatim>\<open>abc\<close>: neither a decoded text nor the content as it stood, which is
  the two lines joined by a newline.
\<close>

theorem process_part_rejected_payload:
  "fst (process_part example_lib
      [''Content-Type: text/plain'', ''Content-Transfer-Encoding: base64'', [], ''a b'', ''c'']
      (MHTMLParser None True))
     = (''text/plain'', [], ''abc'')
   \<and> join [LF] [''a b'', ''c''] = ''a b'' @ [LF] @ ''c''
   \<and> b64decode example_lib (encode_utf8 (remove_whitespace (''a b'' @ [LF] @ ''c'')))
       = Inl ''Incorrect padding''"
  by (simp add: process_part_def scan_part_def process_line_def part_vars_init_def strip_def
      isspace_def lower_def get_header_value_def rstrip_chars_def str_split_def
      decode_content_def resource_id_of_def decode_base64_def remove_whitespace_def
      encode_utf8_def example_lib_def Let_def)

text \<open>
  C3, amended: after the split of a part into headers and content lines, with the
  content lines joined by newlines, the content stored is chosen by the transfer
  encoding in lower case. For \<^verbatim>\<open>base64\<close> and a content type that starts with
  \<^verbatim>\<open>image/\<close> it is the payload as it stands. For \<^verbatim>\<open>base64\<close> and any other
  content type the whitespace is removed from the payload; when the library decodes
  what is left, the bytes read as UTF-8 without the bytes that do not decode are stored,
  and when the library rejects it, the payload without its whitespace is stored. For
  \<^verbatim>\<open>quoted-printable\<close> the bytes that the library decodes, read as UTF-8 in the
  same way, are stored, and the content unchanged when the library rejects it. For every
  other encoding, or none, the content is stored unchanged.
\<close>

theorem process_part_decode_policy:
  assumes "process_part L lines p = ((ct, rid, c), p')"
    and "v = scan_part lines"
    and "body = join [LF] (content_lines v)"
    and "enc = lower (content_encoding v)"
  shows "ct = content_type v
    \<and> c = (if enc = ''base64'' then
             if startswith ct ''image/'' then body
             else (case b64decode L (encode_utf8 (remove_whitespace body)) of
                     Inr bytes \<Rightarrow> utf8_decode_ignore L bytes
                   | Inl e \<Rightarrow> remove_whitespace body)
           else if enc = ''quoted-printable'' then
             (case quopri_decodestring L (encode_utf8 body) of
                Inr bytes \<Rightarrow> utf8_decode_ignore L bytes
              | Inl e \<Rightarrow> body)
           else body)"
proof -
  from assms(1) have "fst (process_part L lines p) = (ct, rid, c)" by simp
  then have ct: "ct = content_type v" and c: "c = decode_content L v"
    by (simp_all add: process_part_result assms(2))
  show ?thesis
    using ct c assms(3,4)
    by (auto simp: decode_content_def Let_def decode_base64_def decode_quoted_printable_def
        split: sum.splits)
qed

theorem process_part_decode_policy_witness:
  "process_part example_lib
      [''Content-Type: text/plain'', ''Content-Transfer-Encoding: BASE64'', [], ''aGk='']
      (MHTMLParser None True)
     = ((''text/plain'', [], ''hi''), MHTMLParser None True)
   \<and> ''hi'' = (case b64decode example_lib (encode_utf8 (remove_whitespace ''aGk='')) of
                 Inr bytes \<Rightarrow> utf8_decode_ignore example_lib bytes
               | Inl e \<Rightarrow> remove_whitespace ''aGk='')
   \<and> b64decode example_lib (encode_utf8 (remove_whitespace ''aGk='')) = Inr ''hi''"
proof -
  have run: "process_part example_lib
      [''Content-Type: text/plain'', ''Content-Transfer-Encoding: BASE64'', [], ''aGk='']
      (MHTMLParser None True) = ((''text/plain'', [], ''hi''), MHTMLParser None True)"
    by (simp add: process_part_def ex_scan decode_content_def resource_id_of_def lower_def
        decode_base64_def remove_whitespace_def isspace_def encode_utf8_def example_lib_def Let_def)
  have lib: "b64decode example_lib (encode_utf8 (remove_whitespace ''aGk='')) = Inr ''hi''"
    by (simp add: remove_whitespace_def isspace_def encode_utf8_def example_lib_def)
  from process_part_decode_policy [OF run refl refl refl]
  have pol: "''hi'' = (case b64decode example_lib (encode_utf8 (remove_whitespace ''aGk='')) of
                 Inr bytes \<Rightarrow> utf8_decode_ignore example_lib bytes
               | Inl e \<Rightarrow> remove_whitespace ''aGk='')"
    by (simp add: ex_scan lower_def cong: sum.case_cong)
  from run pol lib show ?thesis by blast
qed

section \<open>The page returned by \<^verbatim>\<open>get_html\<close>\<close>

lemma sub_all_error: "sub_all L ps repl html = Inl e \<Longrightarrow> e = ReError"
  by (induction ps arbitrary: html) (auto simp: re_sub_def split: option.splits sum.splits)

lemma embed_images_error: "embed_images L di m html = Inl e \<Longrightarrow> e = ReError"
proof (induction m arbitrary: html)
  case Nil
  then show ?case by simp
next
  case (Cons x m)
  obtain name ct content where x: "x = (name, ct, content)" by (cases x)
  from Cons show ?case
    by (auto simp: x Let_def simp del: sub_all.simps split: if_splits sum.splits
        dest: sub_all_error)
qed

lemma fix_html_paths_error: "fix_html_paths L reg html = Inl e \<Longrightarrow> e = ReError"
proof (induction reg arbitrary: html)
  case Nil
  then show ?case by simp
next
  case (Cons x reg)
  obtain name fname where x: "x = (name, fname)" by (cases x)
  from Cons.prems show ?case
    by (auto simp: x simp del: sub_all.simps split: sum.splits dest: sub_all_error Cons.IH)
qed

lemma find_html_empty_iff:
  "find_html ds = [] \<longleftrightarrow>
     (\<forall>pt \<in> set ds. fst pt \<noteq> ''text/html'')
     \<or> (\<exists>pre name post. ds = pre @ (''text/html'', name, []) # post
           \<and> (\<forall>pt \<in> set pre. fst pt \<noteq> ''text/html''))"
proof (induction ds)
  case Nil
  then show ?case by simp
next
  case (Cons x ds)
  obtain ct name content where x: "x = (ct, name, content)" by (cases x)
  show ?case
  proof (cases "ct = ''text/html''")
    case True
    have "content = [] \<longleftrightarrow> (\<exists>pre name' post. (ct, name, content) # ds = pre @ (''text/html'', name', []) # post
           \<and> (\<forall>pt \<in> set pre. fst pt \<noteq> ''text/html''))"
    proof
      assume "content = []"
      with True have "(ct, name, content) # ds = [] @ (''text/html'', name, []) # ds" by simp
      then show "\<exists>pre name' post. (ct, name, content) # ds = pre @ (''text/html'', name', []) # post
           \<and> (\<forall>pt \<in> set pre. fst pt \<noteq> ''text/html'')" by fastforce
    next
      assume "\<exists>pre name' post. (ct, name, content) # ds = pre @ (''text/html'', name', []) # post
           \<and> (\<forall>pt \<in> set pre. fst pt \<noteq> ''text/html'')"
      then obtain pre name' post where e: "(ct, name, content) # ds = pre @ (''text/html'', name', []) # post"
        and n: "\<forall>pt \<in> set pre. fst pt \<noteq> ''text/html''" by blast
      show "content = []"
      proof (cases pre)
        case Nil
        with e show ?thesis by simp
      next
        case (Cons y ys)
        with e have "y = (ct, name, content)" by simp
        with n Cons True show ?thesis by simp
      qed
    qed
    with True show ?thesis by (simp add: x)
  next
    case False
    have "(\<exists>pre name' post. x # ds = pre @ (''text/html'', name', []) # post
           \<and> (\<forall>pt \<in> set pre. fst pt \<noteq> ''text/html''))
      \<longleftrightarrow> (\<exists>pre name' post. ds = pre @ (''text/html'', name', []) # post
           \<and> (\<forall>pt \<in> set pre. fst pt \<noteq> ''text/html''))" (is "?A \<longleftrightarrow> ?B")
    proof
      assume ?A
      then obtain pre name' post where e: "x # ds = pre @ (''text/html'', name', []) # post"
        and n: "\<forall>pt \<in> set pre. fst pt \<noteq> ''text/html''" by blast
      show ?B
      proof (cases pre)
        case Nil
        with e False x show ?thesis by simp
      next
        case (Cons y ys)
        with e n show ?thesis by auto
      qed
    next
      assume ?B
      then obtain pre name' post where e: "ds = pre @ (''text/html'', name', []) # post"
        and n: "\<forall>pt \<in> set pre. fst pt \<noteq> ''text/html''" by blast
      from e have "x # ds = (x # pre) @ (''text/html'', name', []) # post" by simp
      moreover from n False x have "\<forall>pt \<in> set (x # pre). fst pt \<noteq> ''text/html''" by simp
      ultimately show ?A by blast
    qed
    with False Cons.IH show ?thesis by (simp add: x)
  qed
qed

lemma find_html_first:
  "(\<forall>pt \<in> set pre. fst pt \<noteq> ''text/html'') \<Longrightarrow>
     find_html (pre @ (''text/html'', name, content) # post) = content"
  by (induction pre) auto

text \<open>
  C4, as stated: \<^verbatim>\<open>get_html\<close> fails with its content error exactly when the dataset
  has no part of type \<^verbatim>\<open>text/html\<close>. It fails too when the first such part has an
  empty content: the document below has a \<^verbatim>\<open>text/html\<close> part with headers and no
  body, \<^verbatim>\<open>parse\<close> stores it, and \<^verbatim>\<open>get_html\<close> raises in both modes, whatever the
  library.
\<close>

theorem get_html_empty_page:
  "\<forall>L emb.
     fst (parse L (MHTMLParser (Some empty_page_doc) True)) = None
     \<and> dataset (snd (parse L (MHTMLParser (Some empty_page_doc) True)))
         = [(''text/html'', ''page.html'', [])]
     \<and> get_html L (snd (parse L (MHTMLParser (Some empty_page_doc) True))) emb
         = Inl (ValueError ''No HTML content found in MHTML file'')"
proof (intro allI)
  fix L emb
  have ne: "empty_page_doc \<noteq> []" by (simp add: empty_page_doc_def)
  from parse_fresh [OF ne empty_page_doc_boundary, of L True]
  show "fst (parse L (MHTMLParser (Some empty_page_doc) True)) = None
     \<and> dataset (snd (parse L (MHTMLParser (Some empty_page_doc) True)))
         = [(''text/html'', ''page.html'', [])]
     \<and> get_html L (snd (parse L (MHTMLParser (Some empty_page_doc) True))) emb
         = Inl (ValueError ''No HTML content found in MHTML file'')"
    by (simp add: empty_page_doc_recognized get_html_def)
qed

text \<open>
  C4, amended: in both modes \<^verbatim>\<open>get_html\<close> fails with its content error exactly when
  the dataset has no part of type \<^verbatim>\<open>text/html\<close> or the first such part has an empty
  content; when the first such part has a content that is not empty, the result is built
  from that content, by the embedding loop or by \<^verbatim>\<open>_fix_html_paths\<close>.
\<close>

theorem get_html_content_error:
  "((get_html L p emb = Inl (ValueError ''No HTML content found in MHTML file'')) \<longleftrightarrow>
      ((\<forall>pt \<in> set (dataset p). fst pt \<noteq> ''text/html'')
       \<or> (\<exists>pre name post. dataset p = pre @ (''text/html'', name, []) # post
             \<and> (\<forall>pt \<in> set pre. fst pt \<noteq> ''text/html''))))
   \<and> (\<forall>pre name content post.
         dataset p = pre @ (''text/html'', name, content) # post
         \<and> (\<forall>pt \<in> set pre. fst pt \<noteq> ''text/html'') \<and> content \<noteq> [] \<longrightarrow>
         get_html L p emb =
           (if emb then embed_images L (decode_images p) (image_map_of (dataset p) []) content
            else fix_html_paths L (image_paths p) content))"
proof -
  have "(get_html L p emb = Inl (ValueError ''No HTML content found in MHTML file''))
      \<longleftrightarrow> find_html (dataset p) = []"
    by (auto simp: get_html_def Let_def dest: embed_images_error fix_html_paths_error)
  then show ?thesis
    by (auto simp: find_html_empty_iff find_html_first get_html_def Let_def)
qed

theorem get_html_content_error_witness:
  "get_html example_lib (snd (parse example_lib (MHTMLParser (Some example_doc) True))) False
     = Inr ''<img src=\"cid:img1\">''
   \<and> get_html example_lib (MHTMLParser (Some example_doc) True) False
     = Inl (ValueError ''No HTML content found in MHTML file'')"
proof -
  let ?p = "snd (parse example_lib (MHTMLParser (Some example_doc) True))"
  have ne: "example_doc \<noteq> []" by (simp add: example_doc_def)
  from parse_fresh [OF ne example_doc_boundary, of example_lib True]
  have ds: "dataset ?p = [] @ (''text/html'', [], ''<img src=\"cid:img1\">'')
      # [(''image/png'', ''img1'', ''aGk='')]"
    by (simp add: example_doc_recognized)
  have ip: "image_paths ?p = []"
    by (simp add: parse_fields MHTMLParser_def)
  have "\<forall>pt \<in> set (dataset (MHTMLParser (Some example_doc) True)). fst pt \<noteq> ''text/html''"
    by (simp add: MHTMLParser_def)
  with get_html_content_error [of example_lib "MHTMLParser (Some example_doc) True" False]
  have err: "get_html example_lib (MHTMLParser (Some example_doc) True) False
     = Inl (ValueError ''No HTML content found in MHTML file'')" by blast
  from get_html_content_error [of example_lib ?p False] ds
  have "get_html example_lib ?p False = fix_html_paths example_lib (image_paths ?p) ''<img src=\"cid:img1\">''"
    by (metis (no_types, lifting) empty_iff list.distinct(1) set_empty2)
  with ip err show ?thesis by simp
qed

section \<open>Embedding the images\<close>

lemma re_sub_literal: "BSL \<notin> set repl \<Longrightarrow> re_sub L lit repl s = Inr (sub_ci lit (\<lambda>m. repl) s)"
  by (simp add: re_sub_def compile_repl_def)

lemma data_uri_src_literal:
  "BSL \<notin> set ct \<Longrightarrow> BSL \<notin> set content \<Longrightarrow> BSL \<notin> set (data_uri_src ct content)"
  by (simp add: data_uri_src_def)

lemma embed_images_literal:
  "\<forall>(name, ct, content) \<in> set m. BSL \<notin> set ct \<and> BSL \<notin> set content \<Longrightarrow>
     embed_images L True m html = Inr (fold embed_one m html)"
proof (induction m arbitrary: html)
  case Nil
  then show ?case by simp
next
  case (Cons x m)
  obtain name ct content where x: "x = (name, ct, content)" by (cases x)
  from Cons.prems x have lit: "BSL \<notin> set (data_uri_src ct content)"
    by (simp add: data_uri_src_literal)
  have uri: "''src='' @ [DQ] @ (''data:'' @ ct @ '';base64,'' @ content) @ [DQ] = data_uri_src ct content"
    by (simp add: data_uri_src_def)
  from Cons.prems have rest: "\<forall>(name, ct, content) \<in> set m. BSL \<notin> set ct \<and> BSL \<notin> set content"
    by simp
  show ?case
    unfolding x embed_images.simps Let_def uri
    by (simp add: re_sub_literal [OF lit] Cons.IH [OF rest] embed_one_def re_escape_def
        del: append.simps)
qed

lemma embed_images_off: "embed_images L False m html = Inr html"
  by (induction m arbitrary: html) auto

lemma set_update_subset: "set (AList.update k v al) \<subseteq> insert (k, v) (set al)"
  by (induction al) auto

lemma image_map_of_entries:
  "(name, ct, content) \<in> set (image_map_of ds m) \<Longrightarrow>
     (name, ct, content) \<in> set m \<or> ((ct, name, content) \<in> set ds \<and> startswith ct ''image/'')"
proof (induction ds arbitrary: m)
  case Nil
  then show ?case by simp
next
  case (Cons x ds)
  obtain ct' name' content' where x: "x = (ct', name', content')" by (cases x)
  from Cons.prems Cons.IH
  have "(name, ct, content) \<in> set (if startswith ct' ''image/'' then AList.update name' (ct', content') m else m)
      \<or> ((ct, name, content) \<in> set ds \<and> startswith ct ''image/'')"
    by (simp add: x)
  then show ?case
    using set_update_subset [of name' "(ct', content')" m]
    by (auto simp: x split: if_splits)
qed

text \<open>
  The loop over the image map replaces every occurrence, and the specification has one
  result at most.
\<close>

lemma embedded_fold: "embedded m h (fold embed_one m h)"
proof (induction m arbitrary: h)
  case Nil
  show ?case by (simp add: embedded.base)
next
  case (Cons x m)
  obtain name ct content where x: "x = (name, ct, content)" by (cases x)
  let ?r = "data_uri_src ct content"
  let ?h1 = "sub_ci (map Lit (''src='' @ [DQ] @ ''cid:'' @ name @ [DQ])) (\<lambda>m. ?r) h"
  let ?h2 = "sub_ci (map Lit (''src='' @ [DQ] @ name @ [DQ])) (\<lambda>m. ?r) ?h1"
  have a: "replaced lower_char (''src='' @ [DQ] @ ''cid:'' @ name @ [DQ]) ?r h ?h1"
    by (rule sub_ci_replaced) simp
  have b: "replaced lower_char (''src='' @ [DQ] @ name @ [DQ]) ?r ?h1 ?h2"
    by (rule sub_ci_replaced) simp
  have "fold embed_one (x # m) h = fold embed_one m ?h2"
    by (simp add: x embed_one_def)
  with embedded.entry [OF a b Cons.IH [of ?h2]] show ?case by (simp add: x)
qed

lemma embedded_unique:
  assumes "embedded m h t" and "embedded m h t'"
  shows "t = t'"
  using assms
proof (induction arbitrary: t' rule: embedded.induct)
  case (base h)
  then show ?case by (auto elim: embedded.cases)
next
  case (entry name ct content h h1 h2 rest h3)
  from entry.prems obtain k1 k2 where
    a: "replaced lower_char (''src='' @ [DQ] @ ''cid:'' @ name @ [DQ]) (data_uri_src ct content) h k1"
    and b: "replaced lower_char (''src='' @ [DQ] @ name @ [DQ]) (data_uri_src ct content) k1 k2"
    and c: "embedded rest k2 t'"
    by (auto elim: embedded.cases)
  from replaced_unique [OF entry.hyps(1) a] have "k1 = h1" by simp
  with replaced_unique [OF entry.hyps(2)] b have "k2 = h2" by simp
  with c entry.IH show ?case by simp
qed

text \<open>
  The image map: its ids in the order of their first appearance, each with the type and
  payload of the last image part of that id.
\<close>

lemma first_seen:
  "fold (\<lambda>k ks. if k \<in> set ks then ks else ks @ [k]) xs [] = rev (remdups (rev xs))"
  by (induction xs rule: rev_induct) auto

lemma image_map_of_order:
  "map fst (image_map_of ds m)
     = fold (\<lambda>k ks. if k \<in> set ks then ks else ks @ [k]) (map fst (image_entries ds)) (map fst m)"
proof (induction ds arbitrary: m)
  case Nil
  show ?case by (simp add: image_entries_def)
next
  case (Cons x ds)
  obtain ct name content where x: "x = (ct, name, content)" by (cases x)
  have e: "image_entries ((ct, name, content) # ds)
      = (if startswith ct ''image/'' then [(name, ct, content)] else []) @ image_entries ds"
    by (simp add: image_entries_def)
  show ?case
    unfolding x image_map_of.simps Cons.IH e
    by (auto simp: update_keys)
qed

lemma image_map_of_map:
  "map_of (image_map_of ds m) = map_of m ++ map_of (rev (image_entries ds))"
proof (induction ds arbitrary: m)
  case Nil
  show ?case by (simp add: image_entries_def)
next
  case (Cons x ds)
  obtain ct name content where x: "x = (ct, name, content)" by (cases x)
  have e: "image_entries ((ct, name, content) # ds)
      = (if startswith ct ''image/'' then [(name, ct, content)] else []) @ image_entries ds"
    by (simp add: image_entries_def)
  show ?case
    unfolding x image_map_of.simps Cons.IH e
    by (auto simp: update_conv')
qed

text \<open>
  C7, as stated: with \<^verbatim>\<open>embedded=true\<close> the references in single quotes are replaced
  too. The embedded branch has the two patterns in double quotes only: the page
  \<^verbatim>\<open><img src='cid:img1'>\<close> comes back as it is, whatever the library.
\<close>

theorem get_html_single_quote:
  "\<forall>L. fst (parse L (MHTMLParser (Some single_quote_doc) True)) = None
     \<and> dataset (snd (parse L (MHTMLParser (Some single_quote_doc) True)))
         = [(''text/html'', [], ''<img src='' @ [SQ] @ ''cid:img1'' @ [SQ] @ ''>''),
            (''image/png'', ''img1'', ''aGk='')]
     \<and> get_html L (snd (parse L (MHTMLParser (Some single_quote_doc) True))) True
         = Inr (''<img src='' @ [SQ] @ ''cid:img1'' @ [SQ] @ ''>'')"
proof
  fix L
  have ne: "single_quote_doc \<noteq> []" by (simp add: single_quote_doc_def)
  have di: "decode_images (snd (parse L (MHTMLParser (Some single_quote_doc) True)))"
    by (simp add: parse_fields MHTMLParser_def)
  from parse_fresh [OF ne single_quote_doc_boundary, of L True] di
  show "fst (parse L (MHTMLParser (Some single_quote_doc) True)) = None
     \<and> dataset (snd (parse L (MHTMLParser (Some single_quote_doc) True)))
         = [(''text/html'', [], ''<img src='' @ [SQ] @ ''cid:img1'' @ [SQ] @ ''>''),
            (''image/png'', ''img1'', ''aGk='')]
     \<and> get_html L (snd (parse L (MHTMLParser (Some single_quote_doc) True))) True
         = Inr (''<img src='' @ [SQ] @ ''cid:img1'' @ [SQ] @ ''>'')"
    by (simp add: single_quote_doc_recognized get_html_def re_sub_def compile_repl_def
        re_escape_def)
qed

text \<open>
  C7, amended: for a parser with \<^verbatim>\<open>decode_images\<close> set, a dataset whose first
  \<^verbatim>\<open>text/html\<close> part is not empty, and image parts without a backslash in type and
  payload, \<^verbatim>\<open>get_html\<close> with \<^verbatim>\<open>embedded=true\<close> succeeds. Its image map holds
  the resource ids of the image parts in the order of their first appearance, each with
  the content type and the payload of the last image part of that id. The result is the
  page after, for each entry of the map in turn, every occurrence of
  \<^verbatim>\<open>src="cid:<id>"\<close> and then every occurrence of \<^verbatim>\<open>src="<id>"\<close>, in double
  quotes and letters in either case, is replaced by
  \<^verbatim>\<open>src="data:<content-type>;base64,<payload>"\<close>; the occurrences are taken
  leftmost first and do not overlap. Nothing else in the page changes; no pattern
  matches a reference in single quotes.
\<close>

theorem get_html_embedded:
  assumes "decode_images p"
    and "find_html (dataset p) \<noteq> []"
    and "\<forall>(ct, name, content) \<in> set (dataset p).
           startswith ct ''image/'' \<longrightarrow> BSL \<notin> set ct \<and> BSL \<notin> set content"
  shows "(\<exists>h. get_html L p True = Inr h
          \<and> embedded (image_map_of (dataset p) []) (find_html (dataset p)) h)
    \<and> map fst (image_map_of (dataset p) [])
        = rev (remdups (rev (map fst (image_entries (dataset p)))))
    \<and> map_of (image_map_of (dataset p) []) = map_of (rev (image_entries (dataset p)))"
proof -
  have ent: "\<forall>(name, ct, content) \<in> set (image_map_of (dataset p) []).
          (ct, name, content) \<in> set (dataset p) \<and> startswith ct ''image/''"
    using image_map_of_entries [of _ _ _ "dataset p" "[]"] by auto
  with assms(3) have "\<forall>(name, ct, content) \<in> set (image_map_of (dataset p) []).
      BSL \<notin> set ct \<and> BSL \<notin> set content"
    by fastforce
  from embed_images_literal [OF this] assms(1,2)
  have "get_html L p True
      = Inr (fold embed_one (image_map_of (dataset p) []) (find_html (dataset p)))"
    by (simp add: get_html_def)
  then have "\<exists>h. get_html L p True = Inr h
          \<and> embedded (image_map_of (dataset p) []) (find_html (dataset p)) h"
    using embedded_fold by simp
  then show ?thesis
    by (simp add: image_map_of_order [of "dataset p" "[]", simplified] first_seen
        image_map_of_map [of "dataset p" "[]", simplified])
qed

theorem get_html_embedded_witness:
  "get_html example_lib (snd (parse example_lib (MHTMLParser (Some mixed_case_doc) True))) True
     = Inr ''<img src=\"data:image/png;base64,aGk=\"><img src=\"data:image/png;base64,aGk=\"><IMG src=\"data:image/png;base64,aGk=\">''
   \<and> embedded [(''img1'', ''image/png'', ''aGk='')]
        ''<img SRC=\"CID:IMG1\"><img src=\"cid:img1\"><IMG Src=\"Img1\">''
        ''<img src=\"data:image/png;base64,aGk=\"><img src=\"data:image/png;base64,aGk=\"><IMG src=\"data:image/png;base64,aGk=\">''"
proof -
  let ?p = "snd (parse example_lib (MHTMLParser (Some mixed_case_doc) True))"
  have ne: "mixed_case_doc \<noteq> []" by (simp add: mixed_case_doc_def)
  from parse_fresh [OF ne mixed_case_doc_boundary, of example_lib True]
  have ds: "dataset ?p
      = [(''text/html'', [], ''<img SRC=\"CID:IMG1\"><img src=\"cid:img1\"><IMG Src=\"Img1\">''),
         (''image/png'', ''img1'', ''aGk='')]"
    by (simp add: mixed_case_doc_recognized)
  have di: "decode_images ?p" by (simp add: parse_fields MHTMLParser_def)
  have h: "find_html (dataset ?p) \<noteq> []" by (simp add: ds)
  have b: "\<forall>(ct, name, content) \<in> set (dataset ?p).
           startswith ct ''image/'' \<longrightarrow> BSL \<notin> set ct \<and> BSL \<notin> set content"
    by (simp add: ds)
  have g: "get_html example_lib ?p True
     = Inr ''<img src=\"data:image/png;base64,aGk=\"><img src=\"data:image/png;base64,aGk=\"><IMG src=\"data:image/png;base64,aGk=\">''"
    by (simp add: get_html_def ds di re_sub_def compile_repl_def re_escape_def Let_def)
  from get_html_embedded [OF di h b, of example_lib] g
  show ?thesis by (simp add: ds)
qed

section \<open>The names of the image files\<close>

lemma hash_prefix_collision:
  "\<exists>c1 c2 :: string. c1 \<noteq> c2 \<and> take 8 (h c1) = take 8 (h c2 :: string)"
proof -
  let ?f = "\<lambda>c :: string. take 8 (h c)"
  have "finite {s :: string. set s \<subseteq> UNIV \<and> length s \<le> 8}"
    by (rule finite_lists_length_le) simp
  then have fin: "finite {s :: string. length s \<le> 8}" by simp
  have "range ?f \<subseteq> {s. length s \<le> 8}" by auto
  with fin have "finite (range ?f)" by (rule finite_subset [rotated])
  moreover have "infinite (UNIV :: string set)" by (rule infinite_UNIV_listI)
  ultimately have "\<not> inj ?f" using finite_imageD by blast
  then show ?thesis by (auto simp: inj_on_def)
qed

text \<open>
  C6, as stated: two image parts with the same name and different stored bytes never get
  the same file name. The name holds eight characters of the digest, so whatever the
  digest function is, two different contents share a file name; for MD5 the payloads
  \<^verbatim>\<open>AAC5PA==\<close> and \<^verbatim>\<open>AAEcrg==\<close> do, as both digests start with
  \<^verbatim>\<open>5e9d0aba\<close>.
\<close>

theorem generate_image_filename_collision:
  "(\<forall>L name ct. \<exists>c1 c2. c1 \<noteq> c2
      \<and> generate_image_filename L name c1 ct = generate_image_filename L name c2 ct)
   \<and> ''AAC5PA=='' \<noteq> ''AAEcrg==''
   \<and> generate_image_filename example_lib ''logo.png'' ''AAC5PA=='' ''image/png''
       = ''logo_5e9d0aba.png''
   \<and> generate_image_filename example_lib ''logo.png'' ''AAEcrg=='' ''image/png''
       = ''logo_5e9d0aba.png''"
proof (intro conjI allI)
  fix L name ct
  from hash_prefix_collision [of "\<lambda>c. md5_hexdigest L (encode_utf8 c)"]
  show "\<exists>c1 c2. c1 \<noteq> c2
      \<and> generate_image_filename L name c1 ct = generate_image_filename L name c2 ct"
    by (auto simp: generate_image_filename_def Let_def)
next
  show "''AAC5PA=='' \<noteq> ''AAEcrg==''" by simp
next
  show "generate_image_filename example_lib ''logo.png'' ''AAC5PA=='' ''image/png''
       = ''logo_5e9d0aba.png''"
    by (simp add: generate_image_filename_def example_lib_def encode_utf8_def sanitize_def
        str_split_def splitext_root_def basename_def get_image_extension_def lower_def Let_def)
next
  show "generate_image_filename example_lib ''logo.png'' ''AAEcrg=='' ''image/png''
       = ''logo_5e9d0aba.png''"
    by (simp add: generate_image_filename_def example_lib_def encode_utf8_def sanitize_def
        str_split_def splitext_root_def basename_def get_image_extension_def lower_def Let_def)
qed

text \<open>
  C6, amended: the generated file name is a function of the original name, the stored
  content and the content type: the sanitised name without its extension, an underscore,
  the first eight characters of the digest of the content, and the extension of the
  content type. So for two parts with the same name and content type the file names are
  equal exactly when those eight characters are equal: equal contents give equal names,
  and different contents give different names unless the eight characters collide.
\<close>

theorem generate_image_filename_deterministic:
  "(generate_image_filename L name c1 ct = generate_image_filename L name c2 ct
      \<longleftrightarrow> take 8 (md5_hexdigest L (encode_utf8 c1)) = take 8 (md5_hexdigest L (encode_utf8 c2)))
   \<and> generate_image_filename L name c ct
      = splitext_root (last (str_split (last (str_split (sanitize name) ''/'')) [BSL]))
        @ ''_'' @ take 8 (md5_hexdigest L (encode_utf8 c)) @ get_image_extension ct"
  by (simp add: generate_image_filename_def Let_def)

section \<open>Failures of a single part\<close>

lemma startswith_prefix: "startswith (p @ t) p"
  by (induction p) auto

lemma extract_image_cases:
  "extract_image L dir pt (q, fs) =
     (if \<not> is_image_part pt then (q, fs)
      else case payload_of L pt of
             Inl e \<Rightarrow> (q\<lparr>missing_images := AList.update (fst (snd pt))
                              (failed_prefix @ e) (missing_images q)\<rparr>, fs)
           | Inr d \<Rightarrow>
               (case write_failure L (image_file_of L dir pt) d of
                  None \<Rightarrow>
                    (q\<lparr>image_paths := AList.update (fst (snd pt))
                         (generate_image_filename L (fst (snd pt)) (snd (snd pt)) (fst pt))
                         (image_paths q)\<rparr>,
                     fs(image_file_of L dir pt \<mapsto> d))
                | Some (e, left) \<Rightarrow>
                    (q\<lparr>missing_images := AList.update (fst (snd pt))
                         (failed_prefix @ e) (missing_images q)\<rparr>,
                     case left of None \<Rightarrow> fs
                     | Some bytes \<Rightarrow> fs(image_file_of L dir pt \<mapsto> bytes))))"
  by (cases pt) (auto simp: extract_image_def is_image_part_def payload_of_def image_file_of_def
      failed_prefix_def Let_def split: sum.splits option.splits)







text \<open>
  On a full disk the image of the first document is decoded, and the error of the write
  is what the log holds for it; nothing is registered.
\<close>

lemma extract_images_full_disk:
  "missing_images (fst (extract_images full_disk_lib ''out/images''
       (snd (parse full_disk_lib (MHTMLParser (Some example_doc) True)), Map.empty)))
     = [(''img1'', ''Failed to decode/save image: [Errno 28] No space left on device'')]
   \<and> image_paths (fst (extract_images full_disk_lib ''out/images''
       (snd (parse full_disk_lib (MHTMLParser (Some example_doc) True)), Map.empty))) = []
   \<and> snd (extract_images full_disk_lib ''out/images''
       (snd (parse full_disk_lib (MHTMLParser (Some example_doc) True)), Map.empty))
     = [''out/images/img1_9a2fc001.png'' \<mapsto> []]"
proof -
  let ?p = "snd (parse full_disk_lib (MHTMLParser (Some example_doc) True))"
  have ne: "example_doc \<noteq> []" by (simp add: example_doc_def)
  from parse_fresh [OF ne example_doc_boundary, of full_disk_lib True]
  have ds: "dataset ?p = [(''text/html'', [], ''<img src=\"cid:img1\">''),
        (''image/png'', ''img1'', ''aGk='')]"
    by (simp add: example_doc_recognized)
  have m: "missing_images ?p = []" by (simp add: parse_fields MHTMLParser_def)
  have f1: "generate_image_filename full_disk_lib ''img1'' ''aGk='' ''image/png'' = ''img1_9a2fc001.png''"
    by (simp add: generate_image_filename_def full_disk_lib_def example_lib_def encode_utf8_def
        sanitize_def str_split_def splitext_root_def basename_def get_image_extension_def
        lower_def Let_def)
  have d1: "b64decode_str full_disk_lib (remove_whitespace ''aGk='') = Inr ''hi''"
    by (simp add: b64decode_str_def remove_whitespace_def isspace_def full_disk_lib_def
        example_lib_def)
  have wf: "write_failure full_disk_lib
      = (\<lambda>path bytes. Some (''[Errno 28] No space left on device'', Some []))"
    by (simp add: full_disk_lib_def)
  show ?thesis
    by (simp add: extract_images_def ds extract_image_def f1 d1 wf m path_join_def Let_def)
qed

section \<open>The single output file\<close>



lemma get_html_plain:
  "image_paths p = [] \<Longrightarrow> find_html (dataset p) \<noteq> [] \<Longrightarrow>
     get_html L p False = Inr (find_html (dataset p))"
  by (simp add: get_html_def)

lemma basename_no_slash: "CHR ''/'' \<notin> set (basename p)"
  by (auto simp: basename_def dest: set_takeWhileD)

lemma path_join_images: "path_join ''images'' (basename p) = ''images/'' @ basename p"
proof -
  have "\<not> startswith (basename p) ''/''"
    using basename_no_slash [of p] by (cases "basename p") auto
  then show ?thesis by (simp add: path_join_def)
qed






section \<open>The sizes that the splitter counts\<close>

lemma split_acc_nonempty: "split_acc sep acc s \<noteq> []"
  by (induction sep acc s rule: split_acc.induct) auto

lemma split_acc_set: "x \<in> set (split_acc sep acc s) \<Longrightarrow> set x \<subseteq> set acc \<union> set s"
proof (induction sep acc s arbitrary: x rule: split_acc.induct)
  case (1 sep acc)
  then show ?case by simp
next
  case (2 sep acc c cs)
  show ?case
  proof (cases "sep \<noteq> [] \<and> startswith (c # cs) sep")
    case True
    with "2.prems" have "x = rev acc \<or> x \<in> set (split_acc sep [] (drop (length sep) (c # cs)))"
      by simp
    then show ?thesis
    proof
      assume "x = rev acc"
      then show ?thesis by auto
    next
      assume "x \<in> set (split_acc sep [] (drop (length sep) (c # cs)))"
      from "2.IH"(1) [OF True this] have "set x \<subseteq> set (drop (length sep) (c # cs))" by simp
      moreover have "set (drop (length sep) (c # cs)) \<subseteq> set (c # cs)" by (rule set_drop_subset)
      ultimately show ?thesis by auto
    qed
  next
    case False
    with "2.prems" have "x \<in> set (split_acc sep (c # acc) cs)" by auto
    from "2.IH"(2) [OF False this] show ?thesis by auto
  qed
qed

lemma last_split_set: "set (last (str_split s sep)) \<subseteq> set s"
proof -
  have "last (str_split s sep) \<in> set (str_split s sep)"
    by (simp add: str_split_def split_acc_nonempty)
  from split_acc_set [OF this [unfolded str_split_def]] show ?thesis
    by (simp add: str_split_def)
qed

lemma splitext_root_set: "set (splitext_root p) \<subseteq> set p"
  by (auto simp: splitext_root_def Let_def dest: in_set_takeD)

lemma sanitize_no_slash: "CHR ''/'' \<notin> set (sanitize n)"
  by (auto simp: sanitize_def)

lemma get_image_extension_no_slash: "CHR ''/'' \<notin> set (get_image_extension ct)"
proof -
  have "get_image_extension ct \<in> set [''.jpg'', ''.png'', ''.gif'', ''.webp'', ''.bmp'', ''.ico'',
      ''.svg'', ''.img'']"
    by (auto simp: get_image_extension_def split: option.splits if_splits)
  then show ?thesis by auto
qed

lemma generate_image_filename_no_slash:
  assumes "\<forall>x. CHR ''/'' \<notin> set (md5_hexdigest L x)"
  shows "CHR ''/'' \<notin> set (generate_image_filename L n c ct)"
proof -
  have "set (splitext_root (last (str_split (last (str_split (sanitize n) ''/'')) [BSL])))
      \<subseteq> set (sanitize n)"
    using splitext_root_set last_split_set by (meson subset_trans)
  with sanitize_no_slash have "CHR ''/'' \<notin> set (splitext_root (last (str_split (last (str_split (sanitize n) ''/'')) [BSL])))"
    by blast
  moreover from assms have "CHR ''/'' \<notin> set (take 8 (md5_hexdigest L (encode_utf8 c)))"
    by (meson in_set_takeD)
  ultimately show ?thesis
    using get_image_extension_no_slash
    by (simp add: generate_image_filename_def Let_def)
qed

lemma image_path_has_slash: "CHR ''/'' \<in> set (path_join (path_join output_dir ''images'') f)"
proof -
  let ?d = "path_join output_dir ''images''"
  have d: "?d \<noteq> [] \<and> last ?d = CHR ''s''" by (simp add: path_join_def)
  show ?thesis
  proof (cases "startswith f ''/''")
    case True
    then have "f \<noteq> [] \<and> hd f = CHR ''/''" by (cases f) auto
    with True show ?thesis by (cases f) (auto simp: path_join_def)
  next
    case False
    with d have "path_join ?d f = ?d @ ''/'' @ f"
      unfolding path_join_def [of ?d f] by auto
    then show ?thesis by simp
  qed
qed

lemma extract_image_paths_step:
  assumes "extract_image L dir pt (q, fs) = (q', fs')"
  shows "(n, g) \<in> set (image_paths q') \<Longrightarrow>
           (n, g) \<in> set (image_paths q)
           \<or> g = generate_image_filename L (fst (snd pt)) (snd (snd pt)) (fst pt)"
    and "fs' path \<noteq> fs path \<Longrightarrow> path = image_file_of L dir pt"
  using assms set_update_subset [of "fst (snd pt)"
      "generate_image_filename L (fst (snd pt)) (snd (snd pt)) (fst pt)" "image_paths q"]
  by (auto simp: extract_image_cases split: if_splits sum.splits option.splits)

lemma extract_fold_paths:
  assumes "fold (extract_image L dir) ds (q, fs) = (q', fs')"
  shows "(\<forall>n g. (n, g) \<in> set (image_paths q') \<longrightarrow>
            (n, g) \<in> set (image_paths q)
            \<or> (\<exists>pt \<in> set ds. g = generate_image_filename L (fst (snd pt)) (snd (snd pt)) (fst pt)))
    \<and> (\<forall>path. fs' path \<noteq> fs path \<longrightarrow> (\<exists>pt \<in> set ds. path = image_file_of L dir pt))"
  using assms
proof (induction ds arbitrary: q fs)
  case Nil
  then show ?case by simp
next
  case (Cons pt ds)
  obtain q1 fs1 where s1: "extract_image L dir pt (q, fs) = (q1, fs1)"
    by (cases "extract_image L dir pt (q, fs)") auto
  with Cons.prems have r: "fold (extract_image L dir) ds (q1, fs1) = (q', fs')" by simp
  note ih = Cons.IH [OF r]
  note st = extract_image_paths_step [OF s1]
  have a: "\<forall>n g. (n, g) \<in> set (image_paths q') \<longrightarrow>
            (n, g) \<in> set (image_paths q)
            \<or> (\<exists>pt' \<in> set (pt # ds). g = generate_image_filename L (fst (snd pt')) (snd (snd pt')) (fst pt'))"
    using ih st(1) by fastforce
  have b: "\<forall>path. fs' path \<noteq> fs path \<longrightarrow> (\<exists>pt' \<in> set (pt # ds). path = image_file_of L dir pt')"
  proof (intro allI impI)
    fix path
    assume d: "fs' path \<noteq> fs path"
    show "\<exists>pt' \<in> set (pt # ds). path = image_file_of L dir pt'"
    proof (cases "fs1 path = fs path")
      case True
      with d have "fs' path \<noteq> fs1 path" by simp
      with ih show ?thesis by auto
    next
      case False
      from st(2) [OF False] show ?thesis by simp
    qed
  qed
  from a b show ?case by blast
qed

lemma calculate_line_images_size_cong:
  "\<forall>(n, g) \<in> set registry. fs1 g = fs2 g \<Longrightarrow>
     calculate_line_images_size fs1 line registry = calculate_line_images_size fs2 line registry"
  by (induction registry) auto

text \<open>
  \<^verbatim>\<open>extract_images\<close> writes an image to the images directory and stores the bare
  file name in the registry. A digest in hexadecimal has no slash, so no path of the
  registry is a path that was written (paths being compared as they are written: the
  bare name and the path into the images directory name one file only when the working
  directory is the images directory): at every path of the registry the file system is
  as it was before the extraction, and what \<^verbatim>\<open>_calculate_line_images_size\<close> counts
  for a line does not depend on the images extracted.
\<close>

lemma registry_paths_not_written:
  assumes "\<forall>x. CHR ''/'' \<notin> set (md5_hexdigest L x)"
    and "extract_images L (path_join output_dir ''images'') (p, fs) = (p', fs')"
  shows "\<forall>(n, g) \<in> set (image_paths p'). fs' g = fs g"
proof -
  from assms(2) have f: "fold (extract_image L (path_join output_dir ''images'')) (dataset p)
      (p\<lparr>image_paths := []\<rparr>, fs) = (p', fs')"
    by (simp add: extract_images_def)
  note e = extract_fold_paths [OF f]
  show ?thesis
  proof (clarify)
    fix n g
    assume "(n, g) \<in> set (image_paths p')"
    with e have "\<exists>a b c. g = generate_image_filename L a b c" by force
    with generate_image_filename_no_slash [OF assms(1)] have ns: "CHR ''/'' \<notin> set g" by auto
    show "fs' g = fs g"
    proof (rule ccontr)
      assume "fs' g \<noteq> fs g"
      with e obtain pt' where "g = image_file_of L (path_join output_dir ''images'') pt'" by blast
      then have "CHR ''/'' \<in> set g"
        using image_path_has_slash by (cases pt') (simp add: image_file_of_def)
      with ns show False by simp
    qed
  qed
qed

lemma images_never_counted:
  assumes "\<forall>x. CHR ''/'' \<notin> set (md5_hexdigest L x)"
    and "extract_images L (path_join output_dir ''images'') (p, fs) = (p', fs')"
  shows "calculate_line_images_size fs' line (image_paths p')
      = calculate_line_images_size fs line (image_paths p')"
  by (rule calculate_line_images_size_cong) (rule registry_paths_not_written [OF assms])

text \<open>
  The multi-file path of \<^verbatim>\<open>split_file\<close>: for a text of more code points than the
  limit that \<^verbatim>\<open>parse\<close> accepts, \<^verbatim>\<open>_split_large_file\<close> runs on the file system
  that \<^verbatim>\<open>extract_images\<close> leaves, with the registry that it returns.
\<close>

lemma split_file_multi:
  assumes "read_file L fs input_path = Inr t"
    and "parse L (MHTMLParser (Some t) True) = (None, p)"
    and "find_html (dataset p) \<noteq> []"
    and "extract_images L (path_join output_dir ''images'') (p, fs) = (p', fs')"
    and "int (length t) > max_size_mb sp * 1024 * 1024"
    and "split_large_file sp fs' (find_html (dataset p)) (splitext_root (basename input_path))
           output_dir (image_paths p') = (paths, fs'')"
  shows "split_file L sp fs input_path output_dir =
     (Inr paths,
      update_missing_images (missing_images p') (splitext_root (basename input_path)) sp,
      fs'')"
proof -
  have "image_paths p = image_paths (MHTMLParser (Some t) True)"
    using parse_fields [of L "MHTMLParser (Some t) True"] assms(2) by simp
  then have "image_paths p = []" by (simp add: MHTMLParser_def)
  from get_html_plain [OF this assms(3)]
  have html: "get_html L p False = Inr (find_html (dataset p))" .
  show ?thesis
    using assms(1,2,4,5,6) html
    by (simp add: split_file_def Let_def)
qed

text \<open>
  By the sizes that it counts itself, the loop keeps every file within the limit: when
  no path of the registry is the path of an output file, \<^verbatim>\<open>_split_large_file\<close>
  returns the paths numbered from one and writes one file for each buffer of
  \<open>split_parts\<close>, and each buffer is within the limit or has one line at most.
\<close>

lemma split_run_within:
  assumes "split_run limit cost lines cur sz = (parts, cur', sz')"
    and "sz = sum_list (map cost cur)" and "within limit cost cur"
  shows "(\<forall>part \<in> set parts. within limit cost part) \<and> within limit cost cur'
    \<and> sz' = sum_list (map cost cur')"
  using assms
proof (induction lines arbitrary: cur sz parts cur' sz')
  case Nil
  then show ?case by auto
next
  case (Cons line lines)
  show ?case
  proof (cases "sz + cost line > limit")
    case True
    obtain ps c s where r: "split_run limit cost lines [line] (cost line) = (ps, c, s)"
      by (cases "split_run limit cost lines [line] (cost line)") auto
    with True Cons.prems(1) have e: "parts = cur # ps" "cur' = c" "sz' = s" by simp_all
    have "within limit cost [line]" by (simp add: within_def)
    from Cons.IH [OF r _ this] have "(\<forall>part \<in> set ps. within limit cost part) \<and> within limit cost c
      \<and> s = sum_list (map cost c)" by simp
    with e Cons.prems(3) show ?thesis by simp
  next
    case False
    with Cons.prems(1) have r: "split_run limit cost lines (cur @ [line]) (sz + cost line) = (parts, cur', sz')"
      by simp
    from False Cons.prems(2) have "within limit cost (cur @ [line])" by (simp add: within_def)
    from Cons.IH [OF r _ this] Cons.prems(2) show ?thesis by simp
  qed
qed

lemma split_parts_within: "\<forall>part \<in> set (split_parts limit cost lines). within limit cost part"
proof -
  obtain ps c s where r: "split_run limit cost lines [] 0 = (ps, c, s)"
    by (cases "split_run limit cost lines [] 0") auto
  have "within limit cost []" by (simp add: within_def)
  from split_run_within [OF r _ this] show ?thesis by (auto simp: split_parts_def r)
qed

lemma split_step_eq:
  "split_step sp header base_name output_dir registry line v =
     (if current_size v + line_cost (files v) registry line > max_size_mb sp * 1024 * 1024
      then v\<lparr>files := save_html_file (files v) (out_path output_dir base_name (file_counter v))
                        (build_html_content header (current_content v)) registry,
             output_files := output_files v @ [out_path output_dir base_name (file_counter v)],
             current_content := [line],
             current_size := line_cost (files v) registry line,
             file_counter := Suc (file_counter v)\<rparr>
      else v\<lparr>current_content := current_content v @ [line],
             current_size := current_size v + line_cost (files v) registry line\<rparr>)"
  by (simp add: split_step_def save_current_def line_cost_def out_path_def Let_def)

lemma line_cost_cong:
  "\<forall>(n, g) \<in> set registry. fs1 g = fs2 g \<Longrightarrow>
     line_cost fs1 registry line = line_cost fs2 registry line"
  by (simp add: line_cost_def calculate_line_images_size_cong)

lemma upt_shift: "[k ..< Suc (k + n)] = k # [Suc k ..< Suc (k + n)]"
  by (simp add: upt_conv_Cons del: upt_Suc)

lemma fold_split_step:
  assumes "\<forall>k. \<forall>(n, g) \<in> set registry. g \<noteq> out_path output_dir base_name k"
    and "\<forall>(n, g) \<in> set registry. files v g = fs0 g"
    and "split_run (max_size_mb sp * 1024 * 1024) (line_cost fs0 registry) lines
           (current_content v) (current_size v) = (parts, cur, sz)"
  shows "fold (split_step sp header base_name output_dir registry) lines v =
     v\<lparr>output_files := output_files v
           @ map (out_path output_dir base_name) [file_counter v ..< file_counter v + length parts],
       current_size := sz, current_content := cur,
       file_counter := file_counter v + length parts,
       files := write_parts header base_name output_dir registry (file_counter v) parts (files v)\<rparr>"
  using assms(2,3)
proof (induction lines arbitrary: v parts cur sz)
  case Nil
  then show ?case by auto
next
  case (Cons line lines)
  let ?limit = "max_size_mb sp * 1024 * 1024"
  let ?c = "line_cost fs0 registry line"
  have c: "line_cost (files v) registry line = ?c"
    by (rule line_cost_cong) (rule Cons.prems(1))
  show ?case
  proof (cases "current_size v + ?c > ?limit")
    case True
    let ?v2 = "v\<lparr>files := save_html_file (files v) (out_path output_dir base_name (file_counter v))
                        (build_html_content header (current_content v)) registry,
             output_files := output_files v @ [out_path output_dir base_name (file_counter v)],
             current_content := [line],
             current_size := ?c,
             file_counter := Suc (file_counter v)\<rparr>"
    have st: "split_step sp header base_name output_dir registry line v = ?v2"
      using True by (simp add: split_step_eq c)
    obtain ps where r: "split_run ?limit (line_cost fs0 registry) lines [line] ?c = (ps, cur, sz)"
      and p: "parts = current_content v # ps"
      using Cons.prems(2) True by (auto split: prod.splits)
    have ag: "\<forall>(n, g) \<in> set registry. files ?v2 g = fs0 g"
      using Cons.prems(1) assms(1) by (auto simp: save_html_file_def write_file_def)
    have r': "split_run ?limit (line_cost fs0 registry) lines (current_content ?v2) (current_size ?v2)
        = (ps, cur, sz)"
      using r by simp
    have "fold (split_step sp header base_name output_dir registry) (line # lines) v
        = fold (split_step sp header base_name output_dir registry) lines ?v2"
      by (simp add: st)
    also note Cons.IH [OF ag r']
    finally show ?thesis
      by (simp add: p upt_shift del: upt_Suc)
  next
    case False
    let ?v2 = "v\<lparr>current_content := current_content v @ [line],
             current_size := current_size v + ?c\<rparr>"
    have st: "split_step sp header base_name output_dir registry line v = ?v2"
      using False by (simp add: split_step_eq c)
    have r': "split_run ?limit (line_cost fs0 registry) lines (current_content ?v2) (current_size ?v2)
        = (parts, cur, sz)"
      using Cons.prems(2) False by simp
    have ag: "\<forall>(n, g) \<in> set registry. files ?v2 g = fs0 g"
      using Cons.prems(1) by simp
    have "fold (split_step sp header base_name output_dir registry) (line # lines) v
        = fold (split_step sp header base_name output_dir registry) lines ?v2"
      by (simp add: st)
    also note Cons.IH [OF ag r']
    finally show ?thesis by simp
  qed
qed

lemma write_parts_append:
  "write_parts header base_name output_dir registry k (ps @ [part]) fs =
     save_html_file (write_parts header base_name output_dir registry k ps fs)
       (out_path output_dir base_name (k + length ps)) (build_html_content header part) registry"
  by (induction ps arbitrary: k fs) auto

lemma save_current_eq:
  "save_current header base_name output_dir registry v =
     v\<lparr>files := save_html_file (files v) (out_path output_dir base_name (file_counter v))
                     (build_html_content header (current_content v)) registry,
       output_files := output_files v @ [out_path output_dir base_name (file_counter v)]\<rparr>"
  by (simp add: save_current_def out_path_def Let_def)

lemma split_large_file_parts:
  assumes "\<forall>k. \<forall>(n, g) \<in> set registry. g \<noteq> out_path output_dir base_name k"
    and "limit = max_size_mb sp * 1024 * 1024"
    and "parts = split_parts limit (line_cost fs registry) (str_split html_content [LF])"
  shows "split_large_file sp fs html_content base_name output_dir registry =
       (map (out_path output_dir base_name) [1 ..< Suc (length parts)],
        write_parts (extract_header_template html_content) base_name output_dir registry 1 parts fs)
     \<and> (\<forall>part \<in> set parts.
           sum_list (map (line_cost fs registry) part) \<le> limit \<or> length part \<le> 1)"
proof -
  let ?lines = "str_split html_content [LF]"
  let ?h = "extract_header_template html_content"
  let ?v0 = "\<lparr>output_files = [], current_size = 0, current_content = [],
                 file_counter = 1, files = fs\<rparr>"
  let ?step = "split_step sp ?h base_name output_dir registry"
  obtain ps cur sz where r: "split_run limit (line_cost fs registry) ?lines [] 0 = (ps, cur, sz)"
    by (cases "split_run limit (line_cost fs registry) ?lines [] 0") auto
  have r': "split_run (max_size_mb sp * 1024 * 1024) (line_cost fs registry) ?lines
      (current_content ?v0) (current_size ?v0) = (ps, cur, sz)"
    using r assms(2) by simp
  have ag: "\<forall>(n, g) \<in> set registry. files ?v0 g = fs g" by simp
  define v where "v = fold ?step ?lines ?v0"
  from fold_split_step [OF assms(1) ag r', of ?h]
  have v: "output_files v = map (out_path output_dir base_name) [1 ..< 1 + length ps]"
      "current_content v = cur" "file_counter v = 1 + length ps"
      "files v = write_parts ?h base_name output_dir registry 1 ps fs"
    by (simp_all add: v_def)
  have parts: "parts = ps @ (if cur \<noteq> [] then [cur] else [])"
    by (simp add: assms(3) split_parts_def r)
  have res: "split_large_file sp fs html_content base_name output_dir registry =
      (if cur \<noteq> []
       then (output_files (save_current ?h base_name output_dir registry v),
             files (save_current ?h base_name output_dir registry v))
       else (output_files v, files v))"
    unfolding split_large_file_def Let_def v_def [symmetric] by (simp add: v(2))
  have "split_large_file sp fs html_content base_name output_dir registry =
       (map (out_path output_dir base_name) [1 ..< Suc (length parts)],
        write_parts ?h base_name output_dir registry 1 parts fs)"
  proof (cases "cur = []")
    case True
    with res v parts show ?thesis by simp
  next
    case False
    have "output_files (save_current ?h base_name output_dir registry v)
        = map (out_path output_dir base_name) [1 ..< Suc (length (ps @ [cur]))]"
      by (simp add: save_current_eq v)
    moreover have "files (save_current ?h base_name output_dir registry v)
        = write_parts ?h base_name output_dir registry 1 (ps @ [cur]) fs"
      by (simp only: save_current_eq write_parts_append v) simp
    ultimately show ?thesis using res False parts by simp
  qed
  with split_parts_within [of limit "line_cost fs registry" ?lines] assms(3)
  show ?thesis by (simp add: within_def)
qed

text \<open>
  C1: every output file of the multi-file path is within the limit by its accounted size,
  the bytes of its lines plus the sizes on disk of the extracted images that its lines
  refer to, unless it is a single line. The code looks the images up at the paths of the
  registry, which are bare file names, and finds none of the extracted files. With a
  limit of one megabyte, the page of four lines and its two extracted images of 600000
  bytes each go to the single file \<^verbatim>\<open>out/doc_1.html\<close>, whose accounted size is
  1200066 bytes.
\<close>

theorem split_large_file_ignores_images:
  "fst (split_large_file \<lparr>max_size_mb = 1, missing_images_by_file = []\<rparr> two_images_fs
          two_images_html ''doc'' ''out'' two_images_registry) = [''out/doc_1.html'']
   \<and> snd (split_large_file \<lparr>max_size_mb = 1, missing_images_by_file = []\<rparr> two_images_fs
          two_images_html ''doc'' ''out'' two_images_registry) ''out/doc_1.html''
       = Some (''<html><body>'' @ [LF] @ ''<html><body>''
               @ ''<img src=\"images/img1_9a2fc001.png\">''
               @ ''<img src=\"images/img2_0cc175b9.png\">''
               @ ''</body></html>'' @ [LF] @ ''</body></html>'')
   \<and> claimed_accounted_size two_images_fs ''out/images'' two_images_registry
         (str_split two_images_html [LF]) = 1200066
   \<and> (1200066 :: int) > 1 * 1024 * 1024"
proof -
  have a: "fst (split_large_file \<lparr>max_size_mb = 1, missing_images_by_file = []\<rparr> two_images_fs
          two_images_html ''doc'' ''out'' two_images_registry) = [''out/doc_1.html'']"
    by (simp add: split_large_file_def two_images_lines two_images_header split_step_def
        save_current_def Let_def two_images_registry_def two_images_fs_def encode_utf8_def
        path_join_def save_html_file_def write_file_def)
  have b: "snd (split_large_file \<lparr>max_size_mb = 1, missing_images_by_file = []\<rparr> two_images_fs
          two_images_html ''doc'' ''out'' two_images_registry) ''out/doc_1.html''
       = Some (''<html><body>'' @ [LF] @ ''<html><body>''
               @ ''<img src=\"images/img1_9a2fc001.png\">''
               @ ''<img src=\"images/img2_0cc175b9.png\">''
               @ ''</body></html>'' @ [LF] @ ''</body></html>'')"
    by (simp add: split_large_file_def two_images_lines two_images_header split_step_def
        save_current_def Let_def two_images_registry_def two_images_fs_def encode_utf8_def
        path_join_def basename_def save_html_file_def write_file_def build_html_content_def)
  have c: "claimed_accounted_size two_images_fs ''out/images'' two_images_registry
         (str_split two_images_html [LF]) = 1200066"
    by (simp add: claimed_accounted_size_def two_images_lines two_images_registry_def
        two_images_fs_def encode_utf8_def path_join_def)
  from a b c show ?thesis by simp
qed

section \<open>Rewriting the references twice\<close>

subsection \<open>Content without a token\<close>

lemma str_replace_absent:
  "old \<noteq> [] \<Longrightarrow> \<not> contains s old \<Longrightarrow> str_replace s old new = s"
  by (induction s) auto

lemma save_html_rewrite_absent:
  "\<not> has_ref content registry \<Longrightarrow> save_html_rewrite content registry = content"
proof (induction registry)
  case Nil
  then show ?case by simp
next
  case (Cons e rest)
  obtain n p where e: "e = (n, p)" by (cases e)
  from Cons.prems have a: "\<not> contains content (''cid:'' @ n)"
    and b: "\<not> contains content (DQ # n @ [DQ])"
    and r: "\<not> has_ref content rest"
    by (auto simp: has_ref_def e)
  from a have "str_replace content (''cid:'' @ n) (path_join ''images'' (basename p)) = content"
    by (intro str_replace_absent) auto
  moreover from b have "str_replace content (DQ # n @ [DQ])
      (DQ # path_join ''images'' (basename p) @ [DQ]) = content"
    by (intro str_replace_absent) auto
  ultimately show ?case using Cons.IH [OF r] by (simp add: e)
qed

subsection \<open>Texts that overlap\<close>

lemma tail_overlap_iff:
  "tail_overlap x r \<longleftrightarrow> (\<exists>p q. x = p @ q \<and> p \<noteq> [] \<and> q \<noteq> [] \<and> prefix q r)"
proof (induction x)
  case Nil
  show ?case by simp
next
  case (Cons c cs)
  show ?case
  proof
    assume "tail_overlap (c # cs) r"
    then consider "cs \<noteq> []" "prefix cs r" | "tail_overlap cs r"
      by (auto simp: startswith_prefix_iff)
    then show "\<exists>p q. c # cs = p @ q \<and> p \<noteq> [] \<and> q \<noteq> [] \<and> prefix q r"
    proof cases
      case 1
      then have "c # cs = [c] @ cs \<and> [c] \<noteq> [] \<and> cs \<noteq> [] \<and> prefix cs r" by simp
      then show ?thesis by blast
    next
      case 2
      with Cons.IH obtain p q where "cs = p @ q" "p \<noteq> []" "q \<noteq> []" "prefix q r" by blast
      then have "c # cs = (c # p) @ q \<and> c # p \<noteq> [] \<and> q \<noteq> [] \<and> prefix q r" by simp
      then show ?thesis by blast
    qed
  next
    assume "\<exists>p q. c # cs = p @ q \<and> p \<noteq> [] \<and> q \<noteq> [] \<and> prefix q r"
    then obtain p q where pq: "c # cs = p @ q" "p \<noteq> []" "q \<noteq> []" "prefix q r" by blast
    then obtain p' where p: "p = c # p'" by (cases p) auto
    show "tail_overlap (c # cs) r"
    proof (cases "p' = []")
      case True
      with pq p show ?thesis by (simp add: startswith_prefix_iff)
    next
      case False
      with pq p have "cs = p' @ q \<and> p' \<noteq> [] \<and> q \<noteq> [] \<and> prefix q r" by simp
      with Cons.IH have "tail_overlap cs r" by blast
      then show ?thesis by simp
    qed
  qed
qed

lemma overlaps_iff:
  "overlaps x r \<longleftrightarrow>
     sublist r x \<or> sublist x r
     \<or> (\<exists>p q. x = p @ q \<and> p \<noteq> [] \<and> q \<noteq> [] \<and> (prefix q r \<or> suffix p r))"
proof -
  have "tail_overlap (rev x) (rev r) \<longleftrightarrow> (\<exists>p q. x = p @ q \<and> p \<noteq> [] \<and> q \<noteq> [] \<and> suffix p r)"
  proof
    assume "tail_overlap (rev x) (rev r)"
    then obtain p q where "rev x = p @ q" "p \<noteq> []" "q \<noteq> []" "prefix q (rev r)"
      by (auto simp: tail_overlap_iff)
    then have "x = rev q @ rev p \<and> rev q \<noteq> [] \<and> rev p \<noteq> [] \<and> suffix (rev q) r"
      by (metis rev_append rev_is_Nil_conv rev_rev_ident suffix_to_prefix)
    then show "\<exists>p q. x = p @ q \<and> p \<noteq> [] \<and> q \<noteq> [] \<and> suffix p r" by blast
  next
    assume "\<exists>p q. x = p @ q \<and> p \<noteq> [] \<and> q \<noteq> [] \<and> suffix p r"
    then obtain p q where "x = p @ q" "p \<noteq> []" "q \<noteq> []" "suffix p r" by blast
    then have "rev x = rev q @ rev p \<and> rev q \<noteq> [] \<and> rev p \<noteq> [] \<and> prefix (rev p) (rev r)"
      by (simp add: suffix_to_prefix)
    then show "tail_overlap (rev x) (rev r)" unfolding tail_overlap_iff by blast
  qed
  then show ?thesis
    unfolding overlaps_def contains_sublist_iff tail_overlap_iff by blast
qed

lemma sublist_append_cases:
  assumes "sublist x (a @ b)"
  obtains "sublist x a" | "sublist x b"
    | p q where "x = p @ q" "p \<noteq> []" "q \<noteq> []" "suffix p a" "prefix q b"
proof -
  from assms consider "sublist x a" | "sublist x b"
    | p q where "x = p @ q" "suffix p a" "prefix q b"
    unfolding sublist_append by blast
  then show ?thesis
  proof cases
    case 1 then show ?thesis using that by simp
  next
    case 2 then show ?thesis using that by simp
  next
    case 3
    show ?thesis
    proof (cases "p = []")
      case True
      with 3 have "sublist x b" by auto
      then show ?thesis using that by simp
    next
      case False
      show ?thesis
      proof (cases "q = []")
        case True
        with 3 have "sublist x a" by auto
        then show ?thesis using that by simp
      next
        case q: False
        with 3 False show ?thesis using that by blast
      qed
    qed
  qed
qed

text \<open>
  A text that overlaps nothing that was put in occurs afterwards only where it occurred
  before.
\<close>

lemma substituted_sublist:
  assumes "substituted old new s t" and "\<not> overlaps x new" and "sublist x t"
  shows "sublist x s"
  using assms
proof (induction rule: substituted.induct)
  case (same s)
  then show ?case by simp
next
  case (put rest t a)
  from put.prems(1) have no: "\<not> sublist new x" "\<not> sublist x new"
    and np: "\<And>p q. x = p @ q \<Longrightarrow> p \<noteq> [] \<Longrightarrow> q \<noteq> [] \<Longrightarrow> \<not> prefix q new \<and> \<not> suffix p new"
    unfolding overlaps_iff by blast+
  from put.prems(2) consider "sublist x a" | "sublist x (new @ t)"
    | p q where "x = p @ q" "suffix p a" "prefix q (new @ t)" "p \<noteq> []" "q \<noteq> []"
    unfolding sublist_append [of x a] by (metis append_Nil append_Nil2 prefix_imp_sublist suffix_imp_sublist)
  then show ?case
  proof cases
    case 1
    then show ?thesis by (metis sublist_append)
  next
    case 2
    then consider "sublist x new" | "sublist x t"
      | p q where "x = p @ q" "suffix p new" "prefix q t" "p \<noteq> []" "q \<noteq> []"
      unfolding sublist_append [of x new] by (metis append_Nil append_Nil2 prefix_imp_sublist suffix_imp_sublist)
    then show ?thesis
    proof cases
      case 1
      with no show ?thesis by simp
    next
      case 2
      with put.IH put.prems(1) have "sublist x rest" by simp
      then show ?thesis by (metis sublist_append)
    next
      case 3
      with np show ?thesis by blast
    qed
  next
    case 3
    from 3(3) consider "prefix q new" | "prefix new q"
      by (auto simp: prefix_append)
    then show ?thesis
    proof cases
      case 1
      with np 3 show ?thesis by blast
    next
      case 2
      then have "sublist new x" unfolding 3(1) by (metis prefix_imp_sublist sublist_append)
      with no show ?thesis by simp
    qed
  qed
qed

lemma substituted_append_left:
  "substituted old new s t \<Longrightarrow> substituted old new (u @ s) (u @ t)"
proof (induction rule: substituted.induct)
  case (same s)
  show ?case by (rule substituted.same)
next
  case (put rest t a)
  from substituted.put [OF put.hyps, of "u @ a"] show ?case by simp
qed

lemma replaced_substituted:
  assumes "replaced (\<lambda>c. c) w r s t" and "w = l @ old @ rt" and "r = l @ new @ rt"
  shows "substituted old new s t"
  using assms
proof (induction rule: replaced.induct)
  case (none s)
  show ?case by (rule substituted.same)
next
  case (one a m rest t)
  from one.hyps(2) have m: "m = w" by simp
  from one.IH one.prems have "substituted old new rest t" by simp
  then have "substituted old new (rt @ rest) (rt @ t)" by (rule substituted_append_left)
  from substituted.put [OF this, of "a @ l"] show ?case
    by (simp add: m one.prems)
qed

text \<open>A token that does not overlap what is put in is gone after its replacement.\<close>

lemma replaced_removes:
  assumes "replaced (\<lambda>c. c) w r s t" and "\<not> overlaps w r"
  shows "\<not> sublist w t"
  using assms
proof (induction rule: replaced.induct)
  case (none s)
  then show ?case by (simp add: occurs_sublist_iff)
next
  case (one a m rest t)
  from one.hyps(2) have m: "m = w" by simp
  from one.prems have no: "\<not> sublist r w" "\<not> sublist w r"
    and np: "\<And>p q. w = p @ q \<Longrightarrow> p \<noteq> [] \<Longrightarrow> q \<noteq> [] \<Longrightarrow> \<not> prefix q r \<and> \<not> suffix p r"
    unfolding overlaps_iff by blast+
  from one.IH one.prems have ih: "\<not> sublist w t" by simp
  have left: "\<not> sublist w a"
    using one.hyps(1) occurs_sublist_iff by (metis sublist_append)
  show ?case
  proof
    assume "sublist w (a @ r @ t)"
    then show False
    proof (cases rule: sublist_append_cases)
      case 1
      with left show False by simp
    next
      case 2
      then show False
      proof (cases rule: sublist_append_cases)
        case 1 with no show False by simp
      next
        case 2 with ih show False by simp
      next
        case (3 p q) with np show False by blast
      qed
    next
      case (3 p q)
      from 3(5) consider "prefix q r" | "prefix r q" by (auto simp: prefix_append)
      then show False
      proof cases
        case 1 with np 3 show False by blast
      next
        case 2
        then have "sublist r w" unfolding 3(1) by (metis prefix_imp_sublist sublist_append)
        with no show False by simp
      qed
    qed
  qed
qed

subsection \<open>Ids in double quotes\<close>

lemma quote_at_end:
  assumes "DQ \<notin> set r" and "r @ [DQ] = u @ DQ # v"
  shows "u = r \<and> v = []"
  using assms by (auto simp: append_eq_append_conv2 Cons_eq_append_conv append_eq_Cons_conv)

lemma quote_split_last:
  assumes "DQ \<notin> set n" and "p @ q = DQ # n @ [DQ]" and "p \<noteq> []" and "q \<noteq> []" and "hd q = DQ"
  shows "q = [DQ] \<and> p = DQ # n"
proof -
  from assms(2,3) obtain p' where p: "p = DQ # p'" by (cases p) auto
  from assms(4,5) obtain q' where q: "q = DQ # q'" by (cases q) auto
  from assms(2) p q have "n @ [DQ] = p' @ DQ # q'" by simp
  from quote_at_end [OF assms(1) this] p q show ?thesis by simp
qed

lemma quote_split_first:
  assumes "DQ \<notin> set n" and "p @ q = DQ # n @ [DQ]" and "p \<noteq> []" and "q \<noteq> []" and "last p = DQ"
  shows "p = [DQ] \<and> q = n @ [DQ]"
proof -
  from assms(2,3) obtain p' where p: "p = DQ # p'" by (cases p) auto
  show ?thesis
  proof (cases "p' = []")
    case True
    with assms(2) p show ?thesis by simp
  next
    case False
    with assms(5) p obtain p'' where p': "p' = p'' @ [DQ]"
      by (metis append_butlast_last_id last_ConsR)
    from assms(2) p p' have "n @ [DQ] = p'' @ DQ # q" by simp
    from quote_at_end [OF assms(1) this] assms(4) show ?thesis by simp
  qed
qed

lemma quoted_sublist:
  assumes "DQ \<notin> set n" and "DQ \<notin> set r" and "sublist (DQ # n @ [DQ]) (DQ # r @ [DQ])"
  shows "n = r"
proof -
  from assms(3) obtain a b where e: "DQ # r @ [DQ] = a @ (DQ # n @ [DQ]) @ b"
    by (auto simp: sublist_def)
  show ?thesis
  proof (cases a)
    case Nil
    with e have "r @ [DQ] = n @ DQ # b" by simp
    from quote_at_end [OF assms(2) this] show ?thesis by simp
  next
    case (Cons c a')
    with e have "r @ [DQ] = a' @ DQ # (n @ [DQ] @ b)" by auto
    from quote_at_end [OF assms(2) this] show ?thesis by simp
  qed
qed

lemma no_quote_sublist:
  assumes "DQ \<notin> set r" and "sublist r (a @ DQ # b)"
  shows "sublist r a \<or> sublist r b"
  using assms(2)
proof (cases rule: sublist_append_cases)
  case 1
  then show ?thesis by simp
next
  case 2
  then have "prefix r (DQ # b) \<or> sublist r b" by (simp add: sublist_Cons_right)
  then show ?thesis
  proof
    assume "prefix r (DQ # b)"
    with assms(1) have "r = []" by (cases r) auto
    then show ?thesis by simp
  next
    assume "sublist r b"
    then show ?thesis by simp
  qed
next
  case (3 p q)
  from 3(3,5) have "hd q = DQ" by (cases q) (auto simp: prefix_def)
  with 3(1,3) assms(1) show ?thesis by (cases q) auto
qed

text \<open>
  An id in double quotes is gone after its replacement, unless the text held it twice
  in a row with one quote shared.
\<close>

lemma replaced_removes_quoted:
  assumes "replaced (\<lambda>c. c) (DQ # n @ [DQ]) (DQ # r @ [DQ]) s t"
    and "DQ \<notin> set n" and "DQ \<notin> set r" and "n \<noteq> r"
    and "\<not> sublist (DQ # n @ DQ # n @ [DQ]) s"
  shows "\<not> sublist (DQ # n @ [DQ]) t"
  using assms
proof (induction rule: replaced.induct)
  case (none s)
  then show ?case by (simp add: occurs_sublist_iff)
next
  case (one a m rest t)
  let ?T = "DQ # n @ [DQ]"
  let ?Q = "DQ # r @ [DQ]"
  let ?X = "DQ # n @ DQ # n @ [DQ]"
  from one.hyps(2) have m: "m = ?T" by simp
  have bl: "butlast m = DQ # n" by (simp add: m butlast_append)
  from one.prems(4) have nx: "\<not> sublist ?X (a @ ?T @ rest)" by (simp add: m)
  then have "\<not> sublist ?X rest" by (metis sublist_append)
  with one.IH one.prems have ih: "\<not> sublist ?T t" by simp
  have left: "\<not> sublist ?T (a @ DQ # n)"
    using one.hyps(1) by (simp add: occurs_sublist_iff bl)
  have after: "\<not> prefix (n @ [DQ]) rest"
  proof
    assume "prefix (n @ [DQ]) rest"
    then obtain z where "rest = (n @ [DQ]) @ z" by (auto simp: prefix_def)
    then have "a @ ?T @ rest = a @ ?X @ z" by simp
    with nx show False by (metis sublist_appendI)
  qed
  show ?case
  proof
    assume "sublist ?T (a @ ?Q @ t)"
    then show False
    proof (cases rule: sublist_append_cases)
      case 1
      with left show False by (metis sublist_append)
    next
      case 2
      then show False
      proof (cases rule: sublist_append_cases)
        case 1
        from quoted_sublist [OF one.prems(1,2) 1] one.prems(3) show False by simp
      next
        case 2 with ih show False by simp
      next
        case (3 p q)
        from 3(4) obtain zs where "DQ # r @ [DQ] = zs @ p" by (auto simp: suffix_def)
        then have "last (DQ # r @ [DQ]) = last (zs @ p)" by simp
        with 3(2) have "last p = DQ" by simp
        from quote_split_first [OF one.prems(1) 3(1) [symmetric] 3(2,3) this]
        have q: "q = n @ [DQ]" by simp
        from one.hyps(3) show False
        proof (cases rule: replaced.cases)
          case none
          with 3(5) q after show False by simp
        next
          case (one a2 m2 rest2 t2)
          from one(4) have m2: "m2 = ?T" by simp
          from 3(5) q one(2) have "prefix (n @ [DQ]) (a2 @ ?Q @ t2)" by simp
          then consider "prefix (n @ [DQ]) a2"
            | us where "n @ [DQ] = a2 @ us" "prefix us (?Q @ t2)"
            by (auto simp: prefix_append)
          then show False
          proof cases
            case 1
            then have "prefix (n @ [DQ]) rest" unfolding one(1) by (metis prefix_prefix)
            with after show False by simp
          next
            case 2
            show False
            proof (cases "us = []")
              case True
              with 2 have "prefix (n @ [DQ]) rest" unfolding one(1) by (metis append_Nil2 prefixI)
              with after show False by simp
            next
              case False
              with 2(2) obtain us' where "us = DQ # us'" by (cases us) auto
              with 2(1) quote_at_end [OF \<open>DQ \<notin> set n\<close>, of a2 us'] have "a2 = n" by simp
              then have "prefix (n @ [DQ]) rest" unfolding one(1) m2 by simp
              with after show False by simp
            qed
          qed
        qed
      qed
    next
      case (3 p q)
      from 3(5) 3(3) have "hd q = DQ" by (cases q) (auto simp: prefix_def)
      from quote_split_last [OF one.prems(1) 3(1) [symmetric] 3(2,3) this]
      have p: "p = DQ # n" by simp
      with 3(4) obtain a' where "a = a' @ DQ # n" by (auto simp: suffix_def)
      then have "a @ DQ # n = a' @ ?T @ n" by simp
      then have "sublist ?T (a @ DQ # n)" by (metis sublist_appendI)
      with left show False by simp
    qed
  qed
qed

text \<open>
  An inserted path without a double quote overlaps an id in double quotes only when the
  id holds the path.
\<close>

lemma quoted_no_overlap:
  assumes "DQ \<notin> set r" and "\<not> sublist r n"
  shows "\<not> overlaps (DQ # n @ [DQ]) r"
proof
  assume "overlaps (DQ # n @ [DQ]) r"
  then consider "sublist r (DQ # n @ [DQ])" | "sublist (DQ # n @ [DQ]) r"
    | p q where "DQ # n @ [DQ] = p @ q" "p \<noteq> []" "q \<noteq> []" "prefix q r \<or> suffix p r"
    unfolding overlaps_iff by blast
  then show False
  proof cases
    case 1
    then have "sublist r ([] @ DQ # (n @ [DQ]))" by simp
    from no_quote_sublist [OF assms(1) this] have "sublist r (n @ DQ # [])" by auto
    from no_quote_sublist [OF assms(1) this] assms(2) show False by auto
  next
    case 2
    from set_mono_sublist [OF this] assms(1) show False by auto
  next
    case 3
    from 3(1,2) have "hd p = DQ" by (cases p) auto
    with 3(2) have a: "DQ \<in> set p" by (cases p) auto
    from 3(1,3) have "last q = DQ" by (metis last_appendR last_snoc append_Cons)
    with 3(3) have b: "DQ \<in> set q" by (metis last_in_set)
    from 3(4) show False
    proof
      assume "prefix q r"
      with b assms(1) show False by (auto simp: prefix_def)
    next
      assume "suffix p r"
      with a assms(1) show False by (auto simp: suffix_def)
    qed
  qed
qed

lemma doubled_no_overlap:
  assumes "DQ \<notin> set r" and "\<not> sublist r n"
  shows "\<not> overlaps (DQ # n @ DQ # n @ [DQ]) r"
proof
  assume "overlaps (DQ # n @ DQ # n @ [DQ]) r"
  then consider "sublist r (DQ # n @ DQ # n @ [DQ])" | "sublist (DQ # n @ DQ # n @ [DQ]) r"
    | p q where "DQ # n @ DQ # n @ [DQ] = p @ q" "p \<noteq> []" "q \<noteq> []" "prefix q r \<or> suffix p r"
    unfolding overlaps_iff by blast
  then show False
  proof cases
    case 1
    then have "sublist r ([] @ DQ # (n @ DQ # n @ [DQ]))" by simp
    from no_quote_sublist [OF assms(1) this] have "sublist r (n @ DQ # (n @ [DQ]))" by auto
    from no_quote_sublist [OF assms(1) this] assms(2) have "sublist r (n @ DQ # [])" by auto
    from no_quote_sublist [OF assms(1) this] assms(2) show False by auto
  next
    case 2
    from set_mono_sublist [OF this] assms(1) show False by auto
  next
    case 3
    from 3(1,2) have "hd p = DQ" by (cases p) auto
    with 3(2) have a: "DQ \<in> set p" by (cases p) auto
    have "last (DQ # n @ DQ # n @ [DQ]) = DQ" by simp
    with 3(1,3) have "last q = DQ" by (metis last_appendR)
    with 3(3) have b: "DQ \<in> set q" by (metis last_in_set)
    from 3(4) show False
    proof
      assume "prefix q r"
      with b assms(1) show False by (auto simp: prefix_def)
    next
      assume "suffix p r"
      with a assms(1) show False by (auto simp: suffix_def)
    qed
  qed
qed

lemma cid_overlap_id:
  assumes "\<not> overlaps (''cid:'' @ n) r"
  shows "\<not> sublist r n" and "n \<noteq> r"
proof -
  from assms have a: "\<not> sublist r (''cid:'' @ n)" unfolding overlaps_iff by blast
  then show "\<not> sublist r n" by (metis sublist_append)
  then show "n \<noteq> r" by auto
qed

subsection \<open>The loop over the registry\<close>

text \<open>The two replacements for one entry of the registry.\<close>

lemma rewrite_step:
  fixes s n f
  defines "rel \<equiv> ''images/'' @ basename f"
  defines "s1 \<equiv> str_replace s (''cid:'' @ n) rel"
  defines "s2 \<equiv> str_replace s1 (DQ # n @ [DQ]) (DQ # rel @ [DQ])"
  shows "save_html_rewrite s ((n, f) # rest) = save_html_rewrite s2 rest"
    and "replaced (\<lambda>c. c) (''cid:'' @ n) rel s s1"
    and "replaced (\<lambda>c. c) (DQ # n @ [DQ]) (DQ # rel @ [DQ]) s1 s2"
    and "substituted (''cid:'' @ n) rel s s1"
    and "substituted n rel s1 s2"
proof -
  show "save_html_rewrite s ((n, f) # rest) = save_html_rewrite s2 rest"
    by (simp add: path_join_images Let_def s2_def s1_def rel_def del: str_replace.simps)
  show a: "replaced (\<lambda>c. c) (''cid:'' @ n) rel s s1"
    unfolding s1_def by (rule str_replace_replaced) simp
  show b: "replaced (\<lambda>c. c) (DQ # n @ [DQ]) (DQ # rel @ [DQ]) s1 s2"
    unfolding s2_def by (rule str_replace_replaced) simp
  from replaced_substituted [OF a, of "[]" "''cid:'' @ n" "[]" rel]
  show "substituted (''cid:'' @ n) rel s s1" by simp
  from replaced_substituted [OF b, of "[DQ]" n "[DQ]" rel]
  show "substituted n rel s1 s2" by simp
qed

text \<open>
  The rewrite keeps out every text that overlaps no inserted path, and on a clean
  registry it removes the tokens of every entry.
\<close>

lemma rewrite_keeps:
  assumes "\<forall>(n, f) \<in> set registry. \<not> overlaps x (''images/'' @ basename f)"
    and "\<not> contains s x"
  shows "\<not> contains (save_html_rewrite s registry) x"
  using assms
proof (induction registry arbitrary: s)
  case Nil
  then show ?case by simp
next
  case (Cons e registry)
  obtain n f where e: "e = (n, f)" by (cases e)
  let ?rel = "''images/'' @ basename f"
  let ?s1 = "str_replace s (''cid:'' @ n) ?rel"
  let ?s2 = "str_replace ?s1 (DQ # n @ [DQ]) (DQ # ?rel @ [DQ])"
  from Cons.prems(1) have no: "\<not> overlaps x ?rel" by (simp add: e)
  from Cons.prems(2) substituted_sublist [OF rewrite_step(4) no, of s n]
  have "\<not> contains ?s1 x" by (auto simp: contains_sublist_iff)
  with substituted_sublist [OF rewrite_step(5) no, of s n]
  have "\<not> contains ?s2 x" by (auto simp: contains_sublist_iff)
  moreover from Cons.prems(1) have "\<forall>(n, f) \<in> set registry. \<not> overlaps x (''images/'' @ basename f)"
    by simp
  ultimately have "\<not> contains (save_html_rewrite ?s2 registry) x" by (rule Cons.IH [rotated])
  then show ?case unfolding e rewrite_step(1) .
qed

lemma rewrite_removes:
  assumes "\<forall>(n, f) \<in> set registry. n \<in> N \<and> ''images/'' @ basename f \<in> F"
    and "\<forall>n \<in> N. DQ \<notin> set n" and "\<forall>r \<in> F. DQ \<notin> set r"
    and "\<forall>n \<in> N. \<forall>r \<in> F. \<not> overlaps (''cid:'' @ n) r"
    and "\<forall>n \<in> N. \<not> contains s (DQ # n @ DQ # n @ [DQ])"
  shows "\<forall>(n, f) \<in> set registry.
           \<not> contains (save_html_rewrite s registry) (''cid:'' @ n)
           \<and> \<not> contains (save_html_rewrite s registry) (DQ # n @ [DQ])"
  using assms
proof (induction registry arbitrary: s)
  case Nil
  then show ?case by simp
next
  case (Cons e registry)
  obtain n0 f0 where e: "e = (n0, f0)" by (cases e)
  let ?rel = "''images/'' @ basename f0"
  let ?s1 = "str_replace s (''cid:'' @ n0) ?rel"
  let ?s2 = "str_replace ?s1 (DQ # n0 @ [DQ]) (DQ # ?rel @ [DQ])"
  from Cons.prems(1) have n0: "n0 \<in> N" and f0: "?rel \<in> F"
    and rest: "\<forall>(n, f) \<in> set registry. n \<in> N \<and> ''images/'' @ basename f \<in> F"
    by (simp_all add: e)
  from Cons.prems(2) n0 have qn: "DQ \<notin> set n0" by simp
  from Cons.prems(3) f0 have qr: "DQ \<notin> set ?rel" by blast
  have dbl: "\<forall>n \<in> N. \<not> contains ?s2 (DQ # n @ DQ # n @ [DQ])"
  proof
    fix n assume n: "n \<in> N"
    from Cons.prems(4) n f0 have "\<not> overlaps (''cid:'' @ n) ?rel" by blast
    from doubled_no_overlap [OF qr cid_overlap_id(1) [OF this]]
    have no: "\<not> overlaps (DQ # n @ DQ # n @ [DQ]) ?rel" .
    from Cons.prems(5) n have "\<not> contains s (DQ # n @ DQ # n @ [DQ])" by simp
    with substituted_sublist [OF rewrite_step(4) no, of s n0]
    have "\<not> contains ?s1 (DQ # n @ DQ # n @ [DQ])" by (auto simp: contains_sublist_iff)
    with substituted_sublist [OF rewrite_step(5) no, of s n0]
    show "\<not> contains ?s2 (DQ # n @ DQ # n @ [DQ])" by (auto simp: contains_sublist_iff)
  qed
  note ih = Cons.IH [OF rest Cons.prems(2,3,4) dbl]
  from Cons.prems(4) n0 f0 have c0: "\<not> overlaps (''cid:'' @ n0) ?rel" by blast
  from replaced_removes [OF rewrite_step(2) c0, of s]
  have a1: "\<not> sublist (''cid:'' @ n0) ?s1" .
  with substituted_sublist [OF rewrite_step(5) c0, of s n0]
  have a2: "\<not> contains ?s2 (''cid:'' @ n0)" by (auto simp: contains_sublist_iff)
  have d1: "\<not> sublist (DQ # n0 @ DQ # n0 @ [DQ]) ?s1"
  proof -
    from doubled_no_overlap [OF qr cid_overlap_id(1) [OF c0]]
    have no: "\<not> overlaps (DQ # n0 @ DQ # n0 @ [DQ]) ?rel" .
    from Cons.prems(5) n0 have "\<not> sublist (DQ # n0 @ DQ # n0 @ [DQ]) s"
      by (simp add: contains_sublist_iff)
    with substituted_sublist [OF rewrite_step(4) no, of s n0] show ?thesis by blast
  qed
  from replaced_removes_quoted [OF rewrite_step(3) qn qr cid_overlap_id(2) [OF c0] d1]
  have b2: "\<not> contains ?s2 (DQ # n0 @ [DQ])" by (simp add: contains_sublist_iff)
  have k: "\<forall>(n, f) \<in> set registry. \<not> overlaps (''cid:'' @ n0) (''images/'' @ basename f)"
    using Cons.prems(4) n0 rest by blast
  have kq: "\<forall>(n, f) \<in> set registry. \<not> overlaps (DQ # n0 @ [DQ]) (''images/'' @ basename f)"
  proof (clarify)
    fix n f assume m: "(n, f) \<in> set registry" and o: "overlaps (DQ # n0 @ [DQ]) (''images/'' @ basename f)"
    from m rest have fF: "''images/'' @ basename f \<in> F" by blast
    with Cons.prems(3) have q: "DQ \<notin> set (''images/'' @ basename f)" by blast
    from Cons.prems(4) n0 fF have "\<not> overlaps (''cid:'' @ n0) (''images/'' @ basename f)" by blast
    from quoted_no_overlap [OF q cid_overlap_id(1) [OF this]] o show False by simp
  qed
  from rewrite_keeps [OF k a2] rewrite_keeps [OF kq b2] ih
  show ?case unfolding e rewrite_step(1) by simp
qed

subsection \<open>The claim\<close>

text \<open>
  C9, as stated: the rewrite applied twice equals the rewrite applied once, for every
  content and every registry. It fails for the registry \<^verbatim>\<open>{"i": "i_0cc175b9.png"}\<close>
  and the content \<^verbatim>\<open>cid:cid:i\<close>: the first pass yields
  \<^verbatim>\<open>cid:images/i_0cc175b9.png\<close>, where the inserted path starts a new
  \<^verbatim>\<open>cid:i\<close> token, and the second pass substitutes again.
\<close>

theorem save_html_rewrite_not_idempotent:
  "save_html_rewrite (save_html_rewrite ''cid:cid:i'' [(''i'', ''i_0cc175b9.png'')])
       [(''i'', ''i_0cc175b9.png'')]
     \<noteq> save_html_rewrite ''cid:cid:i'' [(''i'', ''i_0cc175b9.png'')]
   \<and> save_html_rewrite ''cid:cid:i'' [(''i'', ''i_0cc175b9.png'')] = ''cid:images/i_0cc175b9.png''
   \<and> save_html_rewrite ''cid:images/i_0cc175b9.png'' [(''i'', ''i_0cc175b9.png'')]
       = ''images/i_0cc175b9.pngmages/i_0cc175b9.png''"
  by (simp add: path_join_def basename_def)

text \<open>
  A page that holds an id twice in a row with one quote shared is changed by the second
  rewrite too, on a clean registry: the first rewrite takes the occurrence on the left
  and leaves the one that shared its quote.
\<close>

lemma save_html_rewrite_doubled:
  "clean_registry [(''img1'', ''img1_9a2fc001.png'')]
   \<and> save_html_rewrite (DQ # ''img1'' @ DQ # ''img1'' @ [DQ]) [(''img1'', ''img1_9a2fc001.png'')]
       = DQ # ''images/img1_9a2fc001.png'' @ DQ # ''img1'' @ [DQ]
   \<and> save_html_rewrite (DQ # ''images/img1_9a2fc001.png'' @ DQ # ''img1'' @ [DQ])
         [(''img1'', ''img1_9a2fc001.png'')]
       = DQ # ''images/img1_9a2fc001.png'' @ DQ # ''images/img1_9a2fc001.png'' @ [DQ]"
proof -
  have bn: "basename ''img1_9a2fc001.png'' = ''img1_9a2fc001.png''" by (simp add: basename_def)
  show ?thesis by (simp add: clean_registry_def bn overlaps_def path_join_def)
qed

text \<open>
  C9, amended: the rewrite applied twice equals the rewrite applied once, and the page
  rewritten once holds no \<^verbatim>\<open>cid:<id>\<close> and no \<^verbatim>\<open>"<id>"\<close> of a registered id,
  so that the second rewrite substitutes nothing, for every registry and page such that
  no id and no file name of the registry holds a double quote, no token
  \<^verbatim>\<open>cid:<id>\<close> of the registry overlaps an inserted path
  \<^verbatim>\<open>images/<file name>\<close> of the registry (neither holds the other, and no proper
  end of one is a start of the other), and the page holds no id of the registry twice in
  a row with one quote shared, \<^verbatim>\<open>"<id>"<id>"\<close>. The two examples above show that
  neither the second nor the third condition can be left out.
\<close>

theorem save_html_rewrite_idempotent:
  assumes "clean_registry registry" and "\<not> doubled_ref content registry"
  shows "\<not> has_ref (save_html_rewrite content registry) registry
    \<and> save_html_rewrite (save_html_rewrite content registry) registry
        = save_html_rewrite content registry"
proof -
  let ?N = "fst ` set registry"
  let ?F = "(\<lambda>(n, f). ''images/'' @ basename f) ` set registry"
  have 1: "\<forall>(n, f) \<in> set registry. n \<in> ?N \<and> ''images/'' @ basename f \<in> ?F" by force
  from assms(1) have cr: "\<And>n f. (n, f) \<in> set registry \<Longrightarrow>
      DQ \<notin> set n \<and> DQ \<notin> set (basename f)
      \<and> (\<forall>(n', f') \<in> set registry. \<not> overlaps (''cid:'' @ n') (''images/'' @ basename f))"
    unfolding clean_registry_def list_all_iff by blast
  have 2: "\<forall>n \<in> ?N. DQ \<notin> set n" using cr by auto
  have 3: "\<forall>r \<in> ?F. DQ \<notin> set r" using cr by auto
  have 4: "\<forall>n \<in> ?N. \<forall>r \<in> ?F. \<not> overlaps (''cid:'' @ n) r"
  proof (intro ballI)
    fix n r assume "n \<in> ?N" and "r \<in> ?F"
    then obtain f n' f' where a: "(n, f) \<in> set registry" and b: "(n', f') \<in> set registry"
      and r: "r = ''images/'' @ basename f'" by auto
    from cr [OF b] a show "\<not> overlaps (''cid:'' @ n) r" unfolding r by blast
  qed
  from assms(2) have 5: "\<forall>n \<in> ?N. \<not> contains content (DQ # n @ DQ # n @ [DQ])"
    by (auto simp: doubled_ref_def list_ex_iff)
  from rewrite_removes [OF 1 2 3 4 5]
  have a: "\<not> has_ref (save_html_rewrite content registry) registry"
    by (auto simp: has_ref_def list_ex_iff)
  from a save_html_rewrite_absent [OF a] show ?thesis by simp
qed

theorem save_html_rewrite_idempotent_witness:
  "clean_registry [(''img1'', ''img1_9a2fc001.png'')]
   \<and> \<not> doubled_ref ''<img src=\"cid:img1\"><img src=\"img1\">'' [(''img1'', ''img1_9a2fc001.png'')]
   \<and> save_html_rewrite ''<img src=\"cid:img1\"><img src=\"img1\">'' [(''img1'', ''img1_9a2fc001.png'')]
       = ''<img src=\"images/img1_9a2fc001.png\"><img src=\"images/img1_9a2fc001.png\">''
   \<and> save_html_rewrite ''<img src=\"images/img1_9a2fc001.png\"><img src=\"images/img1_9a2fc001.png\">''
       [(''img1'', ''img1_9a2fc001.png'')]
       = ''<img src=\"images/img1_9a2fc001.png\"><img src=\"images/img1_9a2fc001.png\">''"
proof -
  have bn: "basename ''img1_9a2fc001.png'' = ''img1_9a2fc001.png''" by (simp add: basename_def)
  have c: "clean_registry [(''img1'', ''img1_9a2fc001.png'')]"
    by (simp add: clean_registry_def bn overlaps_def)
  have d: "\<not> doubled_ref ''<img src=\"cid:img1\"><img src=\"img1\">'' [(''img1'', ''img1_9a2fc001.png'')]"
    by (simp add: doubled_ref_def)
  have once: "save_html_rewrite ''<img src=\"cid:img1\"><img src=\"img1\">'' [(''img1'', ''img1_9a2fc001.png'')]
       = ''<img src=\"images/img1_9a2fc001.png\"><img src=\"images/img1_9a2fc001.png\">''"
    by (simp add: path_join_def bn)
  from save_html_rewrite_idempotent [OF c d] c d once show ?thesis
    by (simp only: once simp_thms)
qed

end
